theory Spec2Isabelle
  imports Complex_Main "HOL-Library.Word"
begin

section \<open>The random source and JavaScript numbers\<close>

text \<open>
  \<^verbatim>\<open>window.crypto.getRandomValues\<close> fills a one-element \<^verbatim>\<open>Uint32Array\<close>. The values
  that successive calls deliver are a sequence of 32-bit words; the state threaded through the
  program is the number of draws consumed so far.
\<close>

type_synonym draws = "nat \<Rightarrow> 32 word"

text \<open>
  The numbers \<^verbatim>\<open>getRandomInt\<close> computes are non-negative integers or \<^verbatim>\<open>NaN\<close>
  (\<^verbatim>\<open>x % 0\<close> is \<^verbatim>\<open>NaN\<close>, arithmetic on \<^verbatim>\<open>NaN\<close> gives \<^verbatim>\<open>NaN\<close>, and every comparison
  with \<^verbatim>\<open>NaN\<close> is false).
\<close>

datatype jsnum = Num nat | NaN

definition maxUint32 :: nat where
  "maxUint32 = 0xFFFFFFFF"

definition js_mod :: "nat \<Rightarrow> nat \<Rightarrow> jsnum" where
  "js_mod a b = (if b = 0 then NaN else Num (a mod b))"

definition js_sub :: "nat \<Rightarrow> jsnum \<Rightarrow> jsnum" where
  "js_sub a r = (case r of NaN \<Rightarrow> NaN | Num m \<Rightarrow> Num (a - m))"

definition js_ge :: "nat \<Rightarrow> jsnum \<Rightarrow> bool" where
  "js_ge a r = (case r of NaN \<Rightarrow> False | Num m \<Rightarrow> m \<le> a)"

text \<open>\<^verbatim>\<open>const limit = maxUint32 - (maxUint32 % max);\<close>\<close>

definition limit :: "nat \<Rightarrow> jsnum" where
  "limit mx = js_sub maxUint32 (js_mod maxUint32 mx)"

text \<open>
  \<^verbatim>\<open>do { randomValue = draw } while (randomValue >= limit); return randomValue % max;\<close>
  The loop has no bound of its own, so the function is partial: \<open>None\<close> is "never returns".
\<close>

partial_function (option) getRandomInt :: "nat \<Rightarrow> draws \<Rightarrow> nat \<Rightarrow> (jsnum \<times> nat) option" where
  "getRandomInt mx rnd pos =
     (let randomValue = unat (rnd pos) in
      if js_ge randomValue (limit mx) then getRandomInt mx rnd (Suc pos)
      else Some (js_mod randomValue mx, Suc pos))"

text \<open>
  Reading \<^verbatim>\<open>array[index]\<close>: \<^verbatim>\<open>undefined\<close> (here \<open>None\<close>) when the index is \<^verbatim>\<open>NaN\<close> or
  past the end.
\<close>

definition js_index :: "'a list \<Rightarrow> jsnum \<Rightarrow> 'a option" where
  "js_index xs r = (case r of NaN \<Rightarrow> None | Num j \<Rightarrow> if j < length xs then Some (xs ! j) else None)"


section \<open>Entropy and strength\<close>

datatype strength = Weak | Fair | Good | Strong | VeryStrong | ExtremelyStrong | Unbreakable

text \<open>
  \<^verbatim>\<open>x.toFixed(2)\<close>: the decimal with two fractional digits nearest to \<open>x\<close> (the larger one
  on a tie). The model computes over the reals: \<^verbatim>\<open>Math.log2\<close> is the real logarithm.
\<close>

definition toFixed2 :: "real \<Rightarrow> real" where
  "toFixed2 x = real_of_int \<lfloor>x * 100 + 1 / 2\<rfloor> / 100"

definition calculateEntropy :: "nat \<Rightarrow> nat \<Rightarrow> real" where
  "calculateEntropy passwordLength characterSetSize =
     toFixed2 (real passwordLength * log 2 (real characterSetSize))"

definition getPasswordStrength :: "real \<Rightarrow> strength" where
  "getPasswordStrength entropy =
     (if entropy < 50 then Weak
      else if entropy < 70 then Fair
      else if entropy < 90 then Good
      else if entropy < 110 then Strong
      else if entropy < 130 then VeryStrong
      else if entropy < 150 then ExtremelyStrong
      else Unbreakable)"


section \<open>Character sets\<close>

text \<open>
  The options the handler reads from the page. Every character of the four alphabets is
  ASCII, so a JavaScript string of them is a list of \<open>char\<close> and \<^verbatim>\<open>split('')\<close> and
  \<^verbatim>\<open>join('')\<close> change nothing.
\<close>

record options =
  includeNumbers :: bool
  includeLowercase :: bool
  includeUppercase :: bool
  includeSymbols :: bool
  noSimilar :: bool
  noDuplicate :: bool
  noSequential :: bool

definition numbers :: string where
  "numbers = ''0123456789''"

definition lowercase :: string where
  "lowercase = ''abcdefghijklmnopqrstuvwxyz''"

definition uppercase :: string where
  "uppercase = ''ABCDEFGHIJKLMNOPQRSTUVWXYZ''"

definition symbols :: string where
  \<open>symbols = ''!@#$%^&*()-_=+[]{}|;:",.<>/?~''\<close>

text \<open>The character class of \<^verbatim>\<open>/[il1Lo0O]/g\<close>.\<close>

definition similarChars :: string where
  "similarChars = ''il1Lo0O''"

definition buildCharacterSets :: "options \<Rightarrow> string list" where
  "buildCharacterSets opts =
     (let characterSets =
            (if includeNumbers opts then [numbers] else [])
          @ (if includeLowercase opts then [lowercase] else [])
          @ (if includeUppercase opts then [uppercase] else [])
          @ (if includeSymbols opts then [symbols] else [])
      in if noSimilar opts
         then map (filter (\<lambda>c. c \<notin> set similarChars)) characterSets
         else characterSets)"


section \<open>Assembling one password\<close>

text \<open>
  The two errors the source throws, and \<open>UndefinedElement\<close> for the places where the source
  would read \<^verbatim>\<open>undefined\<close> out of an array (an index that is \<^verbatim>\<open>NaN\<close> or out of range) and
  carry on with it; \<open>index_defined\<close> below shows that no call site can get there.
\<close>

datatype error = CannotIncludeEachType | RanOutOfCharacters | UndefinedElement

text \<open>\<^verbatim>\<open>char.charCodeAt(0)\<close>\<close>

definition charCodeAt0 :: "char \<Rightarrow> int" where
  "charCodeAt0 c = int (of_char c)"

text \<open>
  \<^verbatim>\<open>characterSets.forEach(set => ...)\<close>: the password array, the set of used characters and
  the number of draws consumed are passed along and returned.
\<close>

fun ensureCharacterTypeInclusion ::
  "char list \<Rightarrow> string list \<Rightarrow> options \<Rightarrow> char set \<Rightarrow> draws \<Rightarrow> nat
     \<Rightarrow> ((error + char list \<times> char set) \<times> nat) option" where
  "ensureCharacterTypeInclusion passwordArray [] opts usedChars rnd pos =
     Some (Inr (passwordArray, usedChars), pos)"
| "ensureCharacterTypeInclusion passwordArray (setArray # characterSets) opts usedChars rnd pos =
     (let availableSetArray =
            (if noDuplicate opts then filter (\<lambda>char. char \<notin> usedChars) setArray else setArray)
      in if length availableSetArray = 0 then Some (Inl CannotIncludeEachType, pos)
         else case getRandomInt (length availableSetArray) rnd pos of
                None \<Rightarrow> None
              | Some (r, pos') \<Rightarrow>
                  (case js_index availableSetArray r of
                     None \<Rightarrow> Some (Inl UndefinedElement, pos')
                   | Some char \<Rightarrow>
                       ensureCharacterTypeInclusion (passwordArray @ [char]) characterSets opts
                         (insert char usedChars) rnd pos'))"

text \<open>
  \<^verbatim>\<open>while (passwordArray.length < length) { ... continue ... push }\<close>: nothing bounds the
  number of redraws, so the function is partial.
\<close>

partial_function (option) fillPassword ::
  "char list \<Rightarrow> char list \<Rightarrow> nat \<Rightarrow> options \<Rightarrow> char set \<Rightarrow> draws \<Rightarrow> nat
     \<Rightarrow> ((error + char list \<times> char set) \<times> nat) option" where
  "fillPassword passwordArray allCharsArray len opts usedChars rnd pos =
     (if length passwordArray < len then
        if length allCharsArray = 0 then Some (Inl RanOutOfCharacters, pos)
        else case getRandomInt (length allCharsArray) rnd pos of
               None \<Rightarrow> None
             | Some (r, pos') \<Rightarrow>
                 (case js_index allCharsArray r of
                    None \<Rightarrow> Some (Inl UndefinedElement, pos')
                  | Some char \<Rightarrow>
                      if noDuplicate opts \<and> char \<in> usedChars
                      then fillPassword passwordArray allCharsArray len opts usedChars rnd pos'
                      else if noSequential opts \<and> length passwordArray > 0
                              \<and> \<bar>charCodeAt0 char - charCodeAt0 (last passwordArray)\<bar> = 1
                      then fillPassword passwordArray allCharsArray len opts usedChars rnd pos'
                      else fillPassword (passwordArray @ [char]) allCharsArray len opts
                             (insert char usedChars) rnd pos')
      else Some (Inr (passwordArray, usedChars), pos))"

text \<open>
  \<^verbatim>\<open>for (let i = passwordArray.length - 1; i > 0; i--) { j = getRandomInt(i + 1); swap i, j }\<close>
\<close>

function shuffle :: "nat \<Rightarrow> char list \<Rightarrow> draws \<Rightarrow> nat \<Rightarrow> ((error + char list) \<times> nat) option" where
  "shuffle i passwordArray rnd pos =
     (if i > 0 then
        case getRandomInt (i + 1) rnd pos of
          None \<Rightarrow> None
        | Some (r, pos') \<Rightarrow>
            (case r of
               NaN \<Rightarrow> Some (Inl UndefinedElement, pos')
             | Num j \<Rightarrow>
                 if j < length passwordArray
                 then shuffle (i - 1)
                        (passwordArray[i := passwordArray ! j, j := passwordArray ! i]) rnd pos'
                 else Some (Inl UndefinedElement, pos'))
      else Some (Inr passwordArray, pos))"
  by pat_completeness auto
termination
  by (relation "measure (\<lambda>(i, passwordArray, rnd, pos). i)") auto

declare shuffle.simps [simp del]

text \<open>
  One pass of the body of the attempt loop, from \<^verbatim>\<open>let passwordArray = []\<close> to
  \<^verbatim>\<open>passwordArray.join('')\<close>.
\<close>

definition assemble ::
  "options \<Rightarrow> string list \<Rightarrow> char list \<Rightarrow> nat \<Rightarrow> draws \<Rightarrow> nat
     \<Rightarrow> ((error + string) \<times> nat) option" where
  "assemble opts characterSets allCharsArray len rnd pos =
     (case ensureCharacterTypeInclusion [] characterSets opts {} rnd pos of
        None \<Rightarrow> None
      | Some (Inl e, pos1) \<Rightarrow> Some (Inl e, pos1)
      | Some (Inr (passwordArray, usedChars), pos1) \<Rightarrow>
          (let availableChars =
                 (if noDuplicate opts then filter (\<lambda>char. char \<notin> usedChars) allCharsArray
                  else allCharsArray)
           in case fillPassword passwordArray availableChars len opts usedChars rnd pos1 of
                None \<Rightarrow> None
              | Some (Inl e, pos2) \<Rightarrow> Some (Inl e, pos2)
              | Some (Inr (passwordArray', usedChars'), pos2) \<Rightarrow>
                  shuffle (length passwordArray' - 1) passwordArray' rnd pos2))"


section \<open>The click handler\<close>

record entry =
  password :: string
  entropy :: real
  label :: strength

datatype message =
    NoTypesSelected
  | CannotGenerateWithoutDuplicates nat
  | NotEnoughUnique
  | ErrorMessage error

text \<open>What the handler changes in the page: the error message and the list of passwords.\<close>

record dom =
  error_message :: "message option"
  passwords :: "entry list"

definition displayError :: "message \<Rightarrow> dom \<Rightarrow> dom" where
  "displayError m d = d\<lparr>error_message := Some m\<rparr>"

definition clearError :: "dom \<Rightarrow> dom" where
  "clearError d = d\<lparr>error_message := None\<rparr>"

text \<open>
  \<^verbatim>\<open>while (generatedPasswords.size < 5 && attempts < 1000)\<close>. The \<^verbatim>\<open>Set\<close> of generated
  passwords is a list without repetitions, in insertion order. The result is the error thrown
  (if any), the set, the entries appended to the page so far, the attempt counter and the
  number of draws consumed.
\<close>

function generate_loop ::
  "options \<Rightarrow> string list \<Rightarrow> char list \<Rightarrow> nat \<Rightarrow> draws
     \<Rightarrow> string list \<Rightarrow> entry list \<Rightarrow> nat \<Rightarrow> nat
     \<Rightarrow> (error option \<times> string list \<times> entry list \<times> nat \<times> nat) option" where
  "generate_loop opts characterSets allCharsArray len rnd generatedPasswords entries attempts pos =
     (if length generatedPasswords < 5 \<and> attempts < 1000 then
        case assemble opts characterSets allCharsArray len rnd pos of
          None \<Rightarrow> None
        | Some (Inl e, pos') \<Rightarrow> Some (Some e, generatedPasswords, entries, attempts + 1, pos')
        | Some (Inr pw, pos') \<Rightarrow>
            if pw \<notin> set generatedPasswords then
              (let characterSetSize = length allCharsArray;
                   ent = calculateEntropy len characterSetSize;
                   strengthInfo = getPasswordStrength ent
               in generate_loop opts characterSets allCharsArray len rnd
                    (generatedPasswords @ [pw])
                    (entries @ [\<lparr>password = pw, entropy = ent, label = strengthInfo\<rparr>])
                    (attempts + 1) pos')
            else generate_loop opts characterSets allCharsArray len rnd
                   generatedPasswords entries (attempts + 1) pos'
      else Some (None, generatedPasswords, entries, attempts, pos))"
  by pat_completeness auto
termination
  by (relation "measure (\<lambda>(opts, characterSets, allCharsArray, len, rnd, generatedPasswords,
                             entries, attempts, pos). 1000 - attempts)") auto

declare generate_loop.simps [simp del]

text \<open>The \<^verbatim>\<open>try { ... } catch\<close> block of the handler.\<close>

definition generate :: "dom \<Rightarrow> options \<Rightarrow> nat \<Rightarrow> draws \<Rightarrow> nat \<Rightarrow> (dom \<times> nat) option" where
  "generate d opts len rnd pos =
     (let characterSets = buildCharacterSets opts;
          allCharsArray = concat characterSets
      in if noDuplicate opts \<and> len > length allCharsArray
         then Some (displayError (CannotGenerateWithoutDuplicates len) d, pos)
         else case generate_loop opts characterSets allCharsArray len rnd [] [] 0 pos of
                None \<Rightarrow> None
              | Some (thrown, generatedPasswords, entries, attempts, pos') \<Rightarrow>
                  (let d' = d\<lparr>passwords := entries\<rparr>
                   in case thrown of
                        Some e \<Rightarrow> Some (displayError (ErrorMessage e) d', pos')
                      | None \<Rightarrow>
                          if length generatedPasswords < 5
                          then Some (displayError NotEnoughUnique d', pos')
                          else Some (d', pos')))"

definition onGenerateClick :: "dom \<Rightarrow> options \<Rightarrow> nat \<Rightarrow> draws \<Rightarrow> nat \<Rightarrow> (dom \<times> nat) option" where
  "onGenerateClick d opts len rnd pos =
     (if \<not> includeNumbers opts \<and> \<not> includeLowercase opts
         \<and> \<not> includeUppercase opts \<and> \<not> includeSymbols opts
      then Some (displayError NoTypesSelected (clearError d), pos)
      else generate (clearError d) opts len rnd pos)"


section \<open>Notions used in the statements\<close>

text \<open>A draw is accepted when the loop condition \<^verbatim>\<open>randomValue >= limit\<close> is false.\<close>

definition accepted :: "nat \<Rightarrow> draws \<Rightarrow> nat \<Rightarrow> bool" where
  "accepted mx rnd k = (\<not> js_ge (unat (rnd k)) (limit mx))"

text \<open>
  A sequence of draws is fair when, for every bound and from every position on, every index
  below the bound comes up again as the residue of an accepted draw. The loops of the program
  have no bound on the number of redraws, so that they return is a statement about fair
  sequences.
\<close>

definition fair_draws :: "draws \<Rightarrow> bool" where
  "fair_draws rnd =
     (\<forall>mx v pos. v < mx \<longrightarrow> mx \<le> maxUint32 \<longrightarrow>
        (\<exists>k\<ge>pos. accepted mx rnd k \<and> unat (rnd k) mod mx = v))"

text \<open>At least one character type is selected (what the handler validates first).\<close>

definition anySelected :: "options \<Rightarrow> bool" where
  "anySelected opts =
     (includeNumbers opts \<or> includeLowercase opts \<or> includeUppercase opts \<or> includeSymbols opts)"

text \<open>The union of the base alphabets of the selected types.\<close>

definition selectedUnion :: "options \<Rightarrow> char set" where
  "selectedUnion opts =
     (if includeNumbers opts then set numbers else {})
   \<union> (if includeLowercase opts then set lowercase else {})
   \<union> (if includeUppercase opts then set uppercase else {})
   \<union> (if includeSymbols opts then set symbols else {})"

text \<open>Two characters of the alphabet are at least three code points apart.\<close>

definition spread :: "char list \<Rightarrow> bool" where
  "spread all = (\<exists>x\<in>set all. \<exists>y\<in>set all. 3 \<le> \<bar>charCodeAt0 x - charCodeAt0 y\<bar>)"

text \<open>No two neighbours in the string have code points that differ by exactly 1.\<close>

fun noAdjacentSequential :: "string \<Rightarrow> bool" where
  "noAdjacentSequential (a # b # cs) =
     (\<bar>charCodeAt0 a - charCodeAt0 b\<bar> \<noteq> 1 \<and> noAdjacentSequential (b # cs))"
| "noAdjacentSequential cs = True"

text \<open>The bounds between the strength tiers.\<close>

definition thresholds :: "real set" where
  "thresholds = {50, 70, 90, 110, 130, 150}"


section \<open>Concrete inputs\<close>

text \<open>A sequence of draws that starts with the given values and goes on as \<open>rnd\<close>.\<close>

fun prepend :: "32 word list \<Rightarrow> draws \<Rightarrow> draws" where
  "prepend [] rnd k = rnd k"
| "prepend (x # xs) rnd 0 = x"
| "prepend (x # xs) rnd (Suc k) = prepend xs rnd k"

text \<open>Every draw 0; the draws 0, 1, 2, ... (a fair sequence); a rejected draw, then 7.\<close>

definition rnd_zero :: draws where
  "rnd_zero = (\<lambda>k. 0)"

definition rnd_count :: draws where
  "rnd_count = (\<lambda>k. word_of_nat k)"

definition rnd_c3 :: draws where
  "rnd_c3 = (\<lambda>k. if k = 0 then 0xFFFFFFFF else 7)"

text \<open>An empty page.\<close>

definition d0 :: dom where
  "d0 = \<lparr>error_message = None, passwords = []\<rparr>"

text \<open>Lowercase letters with \<open>noSequential\<close>, and draws after which the shuffle joins a and b.\<close>

definition opts_c1 :: options where
  "opts_c1 = \<lparr>includeNumbers = False, includeLowercase = True, includeUppercase = False,
     includeSymbols = False, noSimilar = False, noDuplicate = False, noSequential = True\<rparr>"

definition draws_c1 :: "32 word list" where
  "draws_c1 = [0, 2, 4, 6, 8, 1, 1, 4, 3, 2, 1,
     10, 2, 4, 6, 8, 1, 1, 4, 3, 2, 1,
     12, 2, 4, 6, 8, 1, 1, 4, 3, 2, 1,
     14, 2, 4, 6, 8, 1, 1, 4, 3, 2, 1,
     16, 2, 4, 6, 8, 1, 1, 4, 3, 2, 1]"

text \<open>
  Numbers with \<open>noDuplicate\<close> and \<open>noSequential\<close>, and draws that place 1, 3, 5, 7, 0, 2, 4,
  6, 8.
\<close>

definition opts_c2 :: options where
  "opts_c2 = \<lparr>includeNumbers = True, includeLowercase = False, includeUppercase = False,
     includeSymbols = False, noSimilar = False, noDuplicate = True, noSequential = True\<rparr>"

definition draws_c2 :: "32 word list" where
  "draws_c2 = [1, 2, 4, 6, 0, 1, 3, 5, 7]"

text \<open>Numbers with \<open>noDuplicate\<close>: an alphabet of ten characters.\<close>

definition opts_c5 :: options where
  "opts_c5 = \<lparr>includeNumbers = True, includeLowercase = False, includeUppercase = False,
     includeSymbols = False, noSimilar = False, noDuplicate = True, noSequential = False\<rparr>"

text \<open>Lowercase letters and nothing else; the entry that every draw 0 produces.\<close>

definition opts_c6 :: options where
  "opts_c6 = \<lparr>includeNumbers = False, includeLowercase = True, includeUppercase = False,
     includeSymbols = False, noSimilar = False, noDuplicate = False, noSequential = False\<rparr>"

definition entry_c6 :: entry where
  "entry_c6 = \<lparr>password = ''aaaaaa'', entropy = calculateEntropy 6 (length lowercase),
     label = getPasswordStrength (calculateEntropy 6 (length lowercase))\<rparr>"

text \<open>All four types and no restriction.\<close>

definition opts_c7 :: options where
  "opts_c7 = \<lparr>includeNumbers = True, includeLowercase = True, includeUppercase = True,
     includeSymbols = True, noSimilar = False, noDuplicate = False, noSequential = False\<rparr>"

definition draws_c7 :: "32 word list" where
  "draws_c7 = [0, 0, 0, 0, 1, 0, 1]"

text \<open>Lowercase letters with \<open>noSimilar\<close> and \<open>noSequential\<close>.\<close>

definition opts_c8 :: options where
  "opts_c8 = \<lparr>includeNumbers = False, includeLowercase = True, includeUppercase = False,
     includeSymbols = False, noSimilar = True, noDuplicate = False, noSequential = True\<rparr>"

definition draws_c8 :: "32 word list" where
  "draws_c8 = [0, 1, 2, 3, 4, 5, 6, 7, 8, 9, 10, 11, 12, 13, 14, 15]"

text \<open>All four types with \<open>noSimilar\<close> and \<open>noDuplicate\<close>: an alphabet of 84 characters.\<close>

definition opts_c10 :: options where
  "opts_c10 = \<lparr>includeNumbers = True, includeLowercase = True, includeUppercase = True,
     includeSymbols = True, noSimilar = True, noDuplicate = True, noSequential = False\<rparr>"

definition draws_c10 :: "32 word list" where
  "draws_c10 = [1, 6, 11, 16, 21, 26, 31, 36, 41, 46, 51, 56, 61, 66, 71, 76, 81, 3, 8, 13,
     18, 23, 28, 33, 38, 43, 48, 53, 58, 63, 68, 73, 78, 0, 5, 10, 15, 20, 25]"


section \<open>The sampler\<close>

lemma limit_pos: "0 < b \<Longrightarrow> limit b = Num (maxUint32 - maxUint32 mod b)"
  by (simp add: limit_def js_mod_def js_sub_def)

lemma limit_zero: "limit 0 = NaN"
  by (simp add: limit_def js_mod_def js_sub_def)

lemma limit_eq_floor: "maxUint32 - maxUint32 mod b = (maxUint32 div b) * b"
  by (simp add: minus_mod_eq_div_mult)

lemma accepted_iff: "0 < b \<Longrightarrow> accepted b rnd k \<longleftrightarrow> unat (rnd k) < (maxUint32 div b) * b"
  by (simp add: accepted_def limit_pos js_ge_def limit_eq_floor not_le)

lemma getRandomInt_accept:
  "accepted mx rnd pos \<Longrightarrow> getRandomInt mx rnd pos = Some (js_mod (unat (rnd pos)) mx, Suc pos)"
  by (subst getRandomInt.simps) (simp add: accepted_def)

lemma getRandomInt_reject:
  "\<not> accepted mx rnd pos \<Longrightarrow> getRandomInt mx rnd pos = getRandomInt mx rnd (Suc pos)"
  by (subst getRandomInt.simps) (simp add: accepted_def)

lemma getRandomInt_skip:
  "pos \<le> k \<Longrightarrow> (\<forall>j. pos \<le> j \<and> j < k \<longrightarrow> \<not> accepted mx rnd j)
     \<Longrightarrow> getRandomInt mx rnd pos = getRandomInt mx rnd k"
proof (induction "k - pos" arbitrary: pos)
  case 0
  then show ?case by simp
next
  case (Suc n)
  from Suc.hyps(2) Suc.prems have rej: "\<not> accepted mx rnd pos" by simp
  from Suc.hyps(2) have n: "n = k - Suc pos" and le: "Suc pos \<le> k" by simp_all
  from Suc.prems(2) have "\<forall>j. Suc pos \<le> j \<and> j < k \<longrightarrow> \<not> accepted mx rnd j" by simp
  from Suc.hyps(1) [OF n le this] getRandomInt_reject [OF rej] show ?case by simp
qed

lemma getRandomInt_first:
  assumes "pos \<le> k" "\<forall>j. pos \<le> j \<and> j < k \<longrightarrow> \<not> accepted mx rnd j" "accepted mx rnd k"
  shows "getRandomInt mx rnd pos = Some (js_mod (unat (rnd k)) mx, Suc k)"
  using getRandomInt_skip [OF assms(1,2)] getRandomInt_accept [OF assms(3)] by simp

lemma getRandomInt_Some_accepted:
  assumes "getRandomInt mx rnd pos = Some y"
  shows "\<exists>k\<ge>pos. accepted mx rnd k"
proof (rule getRandomInt.raw_induct
    [where P = "\<lambda>mx rnd pos y. \<exists>k\<ge>pos. accepted mx rnd k", OF _ assms], goal_cases)
  case (1 getRandomInt' mx rnd pos y)
  show ?case
  proof (cases "accepted mx rnd pos")
    case True
    then show ?thesis by blast
  next
    case False
    with 1(2) have "getRandomInt' mx rnd (Suc pos) = Some y"
      by (simp add: accepted_def Let_def)
    from 1(1) [OF this] obtain k where "Suc pos \<le> k" "accepted mx rnd k" by blast
    then have "pos \<le> k" by simp
    with \<open>accepted mx rnd k\<close> show ?thesis by blast
  qed
qed

lemma getRandomInt_returns:
  assumes "pos \<le> k" "accepted mx rnd k"
  shows "\<exists>k'. pos \<le> k' \<and> k' \<le> k \<and> accepted mx rnd k'
          \<and> (\<forall>j. pos \<le> j \<and> j < k' \<longrightarrow> \<not> accepted mx rnd j)
          \<and> getRandomInt mx rnd pos = Some (js_mod (unat (rnd k')) mx, Suc k')"
proof -
  define k' where "k' = (LEAST j. pos \<le> j \<and> accepted mx rnd j)"
  have P: "pos \<le> k' \<and> accepted mx rnd k'"
    unfolding k'_def by (rule LeastI [of _ k]) (use assms in simp)
  have le: "k' \<le> k" unfolding k'_def by (rule Least_le) (use assms in simp)
  have rej: "\<forall>j. pos \<le> j \<and> j < k' \<longrightarrow> \<not> accepted mx rnd j"
    unfolding k'_def using not_less_Least by blast
  from P rej have "getRandomInt mx rnd pos = Some (js_mod (unat (rnd k')) mx, Suc k')"
    by (intro getRandomInt_first) simp_all
  with P le rej show ?thesis by blast
qed

lemma getRandomInt_SomeD:
  assumes "getRandomInt mx rnd pos = Some (r, pos')"
  shows "\<exists>k\<ge>pos. pos' = Suc k \<and> accepted mx rnd k
           \<and> (\<forall>j. pos \<le> j \<and> j < k \<longrightarrow> \<not> accepted mx rnd j)
           \<and> r = js_mod (unat (rnd k)) mx"
proof -
  from getRandomInt_Some_accepted [OF assms] obtain k where "pos \<le> k" "accepted mx rnd k"
    by blast
  from getRandomInt_returns [OF this] obtain k' where k':
    "pos \<le> k'" "accepted mx rnd k'" "\<forall>j. pos \<le> j \<and> j < k' \<longrightarrow> \<not> accepted mx rnd j"
    "getRandomInt mx rnd pos = Some (js_mod (unat (rnd k')) mx, Suc k')" by blast
  from k'(4) assms have "pos' = Suc k'" "r = js_mod (unat (rnd k')) mx" by simp_all
  with k' show ?thesis by blast
qed

lemma getRandomInt_zero: "getRandomInt 0 rnd pos = Some (NaN, Suc pos)"
  by (subst getRandomInt.simps) (simp add: limit_zero js_ge_def js_mod_def)

lemma getRandomInt_range:
  assumes "0 < mx" "getRandomInt mx rnd pos = Some (r, pos')"
  shows "\<exists>j<mx. r = Num j" "pos < pos'"
  using getRandomInt_SomeD [OF assms(2)] assms(1) by (auto simp: js_mod_def)

lemma index_defined:
  assumes "0 < length xs" "getRandomInt (length xs) rnd pos = Some (r, pos')"
  shows "\<exists>j<length xs. r = Num j \<and> js_index xs r = Some (xs ! j)"
  using getRandomInt_range(1) [OF assms] by (auto simp: js_index_def)

text \<open>Each residue class below a multiple \<open>q * b\<close> of the bound has exactly \<open>q\<close> members.\<close>

lemma residue_class_card:
  fixes b q v :: nat
  assumes "v < b"
  shows "card {d. d < q * b \<and> d mod b = v} = q"
proof -
  have b: "0 < b" using assms by simp
  have "{d. d < q * b \<and> d mod b = v} = (\<lambda>k. k * b + v) ` {..<q}"
  proof (intro equalityI subsetI)
    fix d assume "d \<in> {d. d < q * b \<and> d mod b = v}"
    then have d: "d < q * b" "d mod b = v" by simp_all
    from d(1) b have "d div b < q" by (simp add: less_mult_imp_div_less)
    moreover have "d = (d div b) * b + v" using d(2) by (metis div_mult_mod_eq)
    ultimately show "d \<in> (\<lambda>k. k * b + v) ` {..<q}" by blast
  next
    fix d assume "d \<in> (\<lambda>k. k * b + v) ` {..<q}"
    then obtain k where k: "k < q" "d = k * b + v" by blast
    from k(1) have "Suc k * b \<le> q * b" by (simp only: Suc_leI mult_le_mono1)
    with assms k(2) have "d < q * b" by simp
    moreover from assms k(2) have "d mod b = v" by simp
    ultimately show "d \<in> {d. d < q * b \<and> d mod b = v}" by simp
  qed
  moreover have "inj_on (\<lambda>k. k * b + v) {..<q}" using b by (simp add: inj_on_def)
  ultimately show ?thesis by (simp add: card_image)
qed

text \<open>
  C3: for a 32-bit bound \<open>b \<ge> 1\<close> the limit is \<open>floor(UINT32_MAX / b) * b\<close>; whenever
  \<open>getRandomInt\<close> returns, it has skipped exactly the draws at or above the limit, taken the
  first draw below it and reduced that draw modulo \<open>b\<close>, so the result is in \<open>[0, b)\<close>; it
  returns as soon as some draw is below the limit; and every value of \<open>[0, b)\<close> is the residue
  of exactly \<open>floor(UINT32_MAX / b) \<ge> 1\<close> accepted draws, so every value is reachable and
  none is favoured.
\<close>

theorem randomIndex_rejection_sampling:
  fixes b :: "32 word"
  assumes "b \<noteq> 0"
  shows "limit (unat b) = Num (maxUint32 div unat b * unat b)
    \<and> (\<forall>r pos'. getRandomInt (unat b) rnd pos = Some (r, pos') \<longrightarrow>
          (\<exists>k\<ge>pos. pos' = Suc k
             \<and> (\<forall>j. pos \<le> j \<and> j < k \<longrightarrow> maxUint32 div unat b * unat b \<le> unat (rnd j))
             \<and> unat (rnd k) < maxUint32 div unat b * unat b
             \<and> r = Num (unat (rnd k) mod unat b) \<and> unat (rnd k) mod unat b < unat b))
    \<and> ((\<exists>k\<ge>pos. unat (rnd k) < maxUint32 div unat b * unat b) \<longrightarrow>
          (\<exists>r pos'. getRandomInt (unat b) rnd pos = Some (r, pos')))
    \<and> (\<forall>v<unat b. card {d. d < maxUint32 div unat b * unat b \<and> d mod unat b = v}
                      = maxUint32 div unat b)
    \<and> 0 < maxUint32 div unat b"
proof -
  have pos: "0 < unat b" using assms by (simp add: unat_gt_0)
  have "unat b < 2 ^ 32" using unsigned_less [of b, where ?'a = nat] by simp
  then have le: "unat b \<le> maxUint32" by (simp add: maxUint32_def)
  have 1: "limit (unat b) = Num (maxUint32 div unat b * unat b)"
    by (simp add: limit_pos [OF pos] limit_eq_floor)
  have 2: "\<exists>k\<ge>pos. pos' = Suc k
             \<and> (\<forall>j. pos \<le> j \<and> j < k \<longrightarrow> maxUint32 div unat b * unat b \<le> unat (rnd j))
             \<and> unat (rnd k) < maxUint32 div unat b * unat b
             \<and> r = Num (unat (rnd k) mod unat b) \<and> unat (rnd k) mod unat b < unat b"
    if "getRandomInt (unat b) rnd pos = Some (r, pos')" for r pos'
  proof -
    from getRandomInt_SomeD [OF that] obtain k where k: "pos \<le> k" "pos' = Suc k"
      "accepted (unat b) rnd k" "\<forall>j. pos \<le> j \<and> j < k \<longrightarrow> \<not> accepted (unat b) rnd j"
      "r = js_mod (unat (rnd k)) (unat b)" by blast
    from k(4) have "\<forall>j. pos \<le> j \<and> j < k \<longrightarrow> maxUint32 div unat b * unat b \<le> unat (rnd j)"
      by (simp add: accepted_iff [OF pos] not_less)
    moreover from k(3) have "unat (rnd k) < maxUint32 div unat b * unat b"
      by (simp add: accepted_iff [OF pos])
    moreover from k(5) pos have "r = Num (unat (rnd k) mod unat b)" by (simp add: js_mod_def)
    moreover from pos have "unat (rnd k) mod unat b < unat b" by simp
    ultimately show ?thesis using k(1,2) by blast
  qed
  have 3: "\<exists>r pos'. getRandomInt (unat b) rnd pos = Some (r, pos')"
    if "\<exists>k\<ge>pos. unat (rnd k) < maxUint32 div unat b * unat b"
  proof -
    from that obtain k where "pos \<le> k" "accepted (unat b) rnd k"
      by (auto simp: accepted_iff [OF pos])
    from getRandomInt_returns [OF this] show ?thesis by blast
  qed
  have 4: "\<forall>v<unat b. card {d. d < maxUint32 div unat b * unat b \<and> d mod unat b = v}
                      = maxUint32 div unat b"
    by (simp add: residue_class_card)
  have 5: "0 < maxUint32 div unat b" using pos le by (simp add: div_greater_zero_iff)
  from 1 2 3 4 5 show ?thesis by blast
qed


text \<open>The bound 10, with a first draw that is rejected and a second that is accepted.\<close>

theorem randomIndex_rejection_sampling_witness:
  "(10 :: 32 word) \<noteq> 0
   \<and> getRandomInt (unat (10 :: 32 word)) rnd_c3 0 = Some (Num 7, 2)
   \<and> limit (unat (10 :: 32 word)) = Num 4294967290
   \<and> card {d. d < 4294967290 \<and> d mod 10 = (3::nat)} = 429496729"
proof -
  have ne: "(10 :: 32 word) \<noteq> 0" by simp
  have run: "getRandomInt (unat (10 :: 32 word)) rnd_c3 0 = Some (Num 7, 2)"
    by (simp add: getRandomInt.simps rnd_c3_def limit_def js_ge_def js_mod_def js_sub_def
        maxUint32_def)
  from randomIndex_rejection_sampling [OF ne, of rnd_c3 0] ne run show ?thesis
    by (simp add: maxUint32_def)
qed

text \<open>
  C4: with the bound 0 the limit is \<open>NaN\<close>, the first draw ends the loop and the result is
  \<open>NaN\<close>: \<open>getRandomInt\<close> returns no number at all, in range or not.
\<close>

theorem randomIndex_zero_bound:
  "getRandomInt 0 rnd pos = Some (NaN, Suc pos)
   \<and> (\<forall>j pos'. getRandomInt 0 rnd pos \<noteq> Some (Num j, pos'))"
  by (simp add: getRandomInt_zero)


section \<open>The character sets\<close>

lemma distinct_base:
  "distinct numbers" "distinct lowercase" "distinct uppercase" "distinct symbols"
  by (simp_all add: numbers_def lowercase_def uppercase_def symbols_def)

lemma disjoint_base:
  "set numbers \<inter> set lowercase = {}" "set numbers \<inter> set uppercase = {}"
  "set numbers \<inter> set symbols = {}" "set lowercase \<inter> set uppercase = {}"
  "set lowercase \<inter> set symbols = {}" "set uppercase \<inter> set symbols = {}"
  by (simp_all add: numbers_def lowercase_def uppercase_def symbols_def)

lemma filtered_base:
  "filter (\<lambda>c. c \<notin> set similarChars) numbers = ''23456789''"
  "filter (\<lambda>c. c \<notin> set similarChars) lowercase = ''abcdefghjkmnpqrstuvwxyz''"
  "filter (\<lambda>c. c \<notin> set similarChars) uppercase = ''ABCDEFGHIJKMNPQRSTUVWXYZ''"
  "filter (\<lambda>c. c \<notin> set similarChars) symbols = symbols"
  by (simp_all add: numbers_def lowercase_def uppercase_def symbols_def similarChars_def)

lemma length_base:
  "length numbers = 10" "length lowercase = 26" "length uppercase = 26" "length symbols = 29"
  by (simp_all add: numbers_def lowercase_def uppercase_def symbols_def)

lemma concat_buildCharacterSets:
  "concat (buildCharacterSets opts) =
     filter (\<lambda>c. noSimilar opts \<longrightarrow> c \<notin> set similarChars)
       ((if includeNumbers opts then numbers else [])
        @ (if includeLowercase opts then lowercase else [])
        @ (if includeUppercase opts then uppercase else [])
        @ (if includeSymbols opts then symbols else []))"
  by (simp add: buildCharacterSets_def Let_def)

lemma distinct_allChars: "distinct (concat (buildCharacterSets opts))"
  unfolding concat_buildCharacterSets
  by (rule distinct_filter) (use distinct_base disjoint_base in auto)

lemma set_allChars:
  "set (concat (buildCharacterSets opts)) =
     {c \<in> selectedUnion opts. noSimilar opts \<longrightarrow> c \<notin> set similarChars}"
  unfolding concat_buildCharacterSets selectedUnion_def by auto

lemma class_sizes:
  assumes "s \<in> set (buildCharacterSets opts)"
  shows "8 \<le> length s" "length s \<le> 29"
  using assms
  by (auto simp: buildCharacterSets_def Let_def filtered_base length_base split: if_splits)

lemma length_buildCharacterSets:
  "length (buildCharacterSets opts) \<le> 4"
  "anySelected opts \<Longrightarrow> 0 < length (buildCharacterSets opts)"
  by (auto simp: buildCharacterSets_def Let_def anySelected_def)

lemma length_allChars:
  "length (concat (buildCharacterSets opts)) \<le> 91"
  "8 * length (buildCharacterSets opts) \<le> length (concat (buildCharacterSets opts))"
  by (auto simp: buildCharacterSets_def Let_def filtered_base length_base)


section \<open>Properties of one assembly\<close>

lemma getRandomInt_fair:
  assumes "fair_draws rnd" "v < mx" "mx \<le> maxUint32"
  shows "\<exists>k\<ge>pos. accepted mx rnd k \<and> unat (rnd k) mod mx = v"
  using assms unfolding fair_draws_def by blast

lemma getRandomInt_fair_returns:
  assumes "fair_draws rnd" "0 < mx" "mx \<le> maxUint32"
  shows "\<exists>j pos'. j < mx \<and> pos < pos' \<and> getRandomInt mx rnd pos = Some (Num j, pos')"
proof -
  from getRandomInt_fair [OF assms] obtain k where "pos \<le> k" "accepted mx rnd k" by blast
  from getRandomInt_returns [OF this] obtain k' where
    k': "pos \<le> k'" "getRandomInt mx rnd pos = Some (js_mod (unat (rnd k')) mx, Suc k')" by blast
  from assms(2) have "js_mod (unat (rnd k')) mx = Num (unat (rnd k') mod mx)"
    "unat (rnd k') mod mx < mx" by (simp_all add: js_mod_def)
  with k' show ?thesis by (intro exI [of _ "unat (rnd k') mod mx"] exI [of _ "Suc k'"]) simp
qed

lemma js_index_SomeD: "js_index xs r = Some c \<Longrightarrow> c \<in> set xs"
  by (cases r) (auto simp: js_index_def split: if_splits)

subsection \<open>Seeding\<close>

lemma ensure_Inr:
  "ensureCharacterTypeInclusion pw sets opts used rnd pos = Some (Inr (pw', used'), pos')
     \<Longrightarrow> \<exists>picks. pw' = pw @ picks \<and> used' = used \<union> set picks
           \<and> length picks = length sets \<and> set picks \<subseteq> set (concat sets) \<and> pos \<le> pos'"
proof (induction sets arbitrary: pw used pos)
  case Nil
  then show ?case by simp
next
  case (Cons s sets)
  let ?av = "if noDuplicate opts then filter (\<lambda>char. char \<notin> used) s else s"
  from Cons.prems obtain r pos1 c where
    g: "getRandomInt (length ?av) rnd pos = Some (r, pos1)" and
    c: "js_index ?av r = Some c" and
    rec: "ensureCharacterTypeInclusion (pw @ [c]) sets opts (insert c used) rnd pos1
            = Some (Inr (pw', used'), pos')"
    by (auto simp: Let_def split: if_splits option.splits)
  from js_index_SomeD [OF c] have cs: "c \<in> set s" by (cases "noDuplicate opts") simp_all
  from getRandomInt_SomeD [OF g] have "pos \<le> pos1" by auto
  moreover from Cons.IH [OF rec] obtain picks where
    "pw' = (pw @ [c]) @ picks" "used' = insert c used \<union> set picks"
    "length picks = length sets" "set picks \<subseteq> set (concat sets)" "pos1 \<le> pos'" by blast
  ultimately show ?case using cs by (intro exI [of _ "c # picks"]) auto
qed

lemma ensure_no_error:
  assumes "distinct (concat sets)" "used \<inter> set (concat sets) = {}" "\<forall>s\<in>set sets. s \<noteq> []"
  shows "ensureCharacterTypeInclusion pw sets opts used rnd pos \<noteq> Some (Inl e, pos')"
  using assms
proof (induction sets arbitrary: pw used pos)
  case Nil
  then show ?case by simp
next
  case (Cons s sets)
  let ?av = "if noDuplicate opts then filter (\<lambda>char. char \<notin> used) s else s"
  from Cons.prems have "set s \<inter> used = {}" "s \<noteq> []" by auto
  then have av: "?av = s" by (auto simp: filter_id_conv)
  with \<open>s \<noteq> []\<close> have len: "0 < length ?av" by simp
  show ?case
  proof (cases "getRandomInt (length ?av) rnd pos")
    case None
    then show ?thesis using len by (simp add: Let_def)
  next
    case (Some a)
    obtain r pos1 where a: "a = (r, pos1)" by (cases a)
    from index_defined [OF len Some [unfolded a]] obtain j where
      j: "j < length ?av" "js_index ?av r = Some (?av ! j)" by blast
    let ?c = "?av ! j"
    from j(1) av have cs: "?c \<in> set s" by (metis nth_mem)
    from Cons.prems cs have "insert ?c used \<inter> set (concat sets) = {}" by auto
    moreover from Cons.prems have "distinct (concat sets)" "\<forall>s\<in>set sets. s \<noteq> []" by auto
    ultimately have
      "ensureCharacterTypeInclusion (pw @ [?c]) sets opts (insert ?c used) rnd pos1
         \<noteq> Some (Inl e, pos')"
      by (intro Cons.IH)
    then show ?thesis using len Some a j(2) by (simp add: Let_def)
  qed
qed

lemma ensure_returns:
  assumes "fair_draws rnd" "\<forall>s\<in>set sets. length s \<le> maxUint32"
  shows "\<exists>y. ensureCharacterTypeInclusion pw sets opts used rnd pos = Some y"
  using assms(2)
proof (induction sets arbitrary: pw used pos)
  case Nil
  then show ?case by simp
next
  case (Cons s sets)
  let ?av = "if noDuplicate opts then filter (\<lambda>char. char \<notin> used) s else s"
  show ?case
  proof (cases "length ?av = 0")
    case True
    then show ?thesis by (simp add: Let_def)
  next
    case False
    have "length ?av \<le> length s" by simp
    moreover from Cons.prems have "length s \<le> maxUint32" by simp
    ultimately have le: "length ?av \<le> maxUint32" by (rule order_trans)
    from False have len: "0 < length ?av" by simp
    from getRandomInt_fair_returns [OF assms(1) len le] obtain j pos1 where
      g: "getRandomInt (length ?av) rnd pos = Some (Num j, pos1)" and j: "j < length ?av"
      by blast
    from j have idx: "js_index ?av (Num j) = Some (?av ! j)" by (simp add: js_index_def)
    from Cons.prems have "\<forall>s\<in>set sets. length s \<le> maxUint32" by simp
    from Cons.IH [OF this] obtain y where
      "ensureCharacterTypeInclusion (pw @ [?av ! j]) sets opts (insert (?av ! j) used) rnd pos1
         = Some y" by blast
    with False g idx show ?thesis by (simp add: Let_def)
  qed
qed

subsection \<open>Filling\<close>

text \<open>One unfolding of the loop, by cases on what the iteration does.\<close>

lemma fillPassword_done:
  "\<not> length pw < len \<Longrightarrow> fillPassword pw all len opts used rnd pos = Some (Inr (pw, used), pos)"
  by (subst fillPassword.simps) simp

lemma fillPassword_step:
  assumes "length pw < len" "getRandomInt (length all) rnd pos = Some (Num j, pos1)"
    "j < length all"
  shows "fillPassword pw all len opts used rnd pos =
     (if noDuplicate opts \<and> all ! j \<in> used
      then fillPassword pw all len opts used rnd pos1
      else if noSequential opts \<and> length pw > 0
              \<and> \<bar>charCodeAt0 (all ! j) - charCodeAt0 (last pw)\<bar> = 1
      then fillPassword pw all len opts used rnd pos1
      else fillPassword (pw @ [all ! j]) all len opts (insert (all ! j) used) rnd pos1)"
proof -
  from assms(3) have "length all \<noteq> 0" by auto
  moreover from assms(3) have "js_index all (Num j) = Some (all ! j)" by (simp add: js_index_def)
  ultimately show ?thesis using assms(1,2) by (subst fillPassword.simps) simp
qed

lemma fillPassword_Inr:
  assumes "fillPassword pw all len opts used rnd pos = Some y"
  shows "\<forall>pw' used' pos'. y = (Inr (pw', used'), pos') \<longrightarrow>
           (\<exists>fills. pw' = pw @ fills \<and> set fills \<subseteq> set all \<and> used' = used \<union> set fills
              \<and> length pw' = max len (length pw) \<and> pos \<le> pos')"
proof (rule fillPassword.raw_induct [where P = "\<lambda>pw all len opts used rnd pos y.
    \<forall>pw' used' pos'. y = (Inr (pw', used'), pos') \<longrightarrow>
           (\<exists>fills. pw' = pw @ fills \<and> set fills \<subseteq> set all \<and> used' = used \<union> set fills
              \<and> length pw' = max len (length pw) \<and> pos \<le> pos')", OF _ assms], goal_cases)
  case (1 f pw all len opts used rnd pos y)
  show ?case
  proof (intro allI impI)
    fix pw' used' pos'
    assume y: "y = (Inr (pw', used'), pos')"
    show "\<exists>fills. pw' = pw @ fills \<and> set fills \<subseteq> set all \<and> used' = used \<union> set fills
              \<and> length pw' = max len (length pw) \<and> pos \<le> pos'"
    proof (cases "length pw < len")
      case False
      with 1(2) y have "pw' = pw" "used' = used" "pos' = pos" by simp_all
      with False show ?thesis by (intro exI [of _ "[]"]) simp
    next
      case True
      with 1(2) y obtain r pos1 c where
        g: "getRandomInt (length all) rnd pos = Some (r, pos1)" and
        c: "js_index all r = Some c" and
        rec: "f pw all len opts used rnd pos1 = Some y
              \<or> f (pw @ [c]) all len opts (insert c used) rnd pos1 = Some y"
        by (auto split: if_splits option.splits)
      from js_index_SomeD [OF c] have cs: "c \<in> set all" .
      from getRandomInt_SomeD [OF g] have le: "pos \<le> pos1" by auto
      from rec show ?thesis
      proof
        assume "f pw all len opts used rnd pos1 = Some y"
        from 1(1) [OF this] y obtain fills where
          "pw' = pw @ fills" "set fills \<subseteq> set all" "used' = used \<union> set fills"
          "length pw' = max len (length pw)" "pos1 \<le> pos'" by blast
        with le show ?thesis by (intro exI [of _ fills]) simp
      next
        assume "f (pw @ [c]) all len opts (insert c used) rnd pos1 = Some y"
        from 1(1) [OF this] y obtain fills where
          "pw' = (pw @ [c]) @ fills" "set fills \<subseteq> set all"
          "used' = insert c used \<union> set fills"
          "length pw' = max len (length (pw @ [c]))" "pos1 \<le> pos'" by blast
        with le cs True show ?thesis by (intro exI [of _ "c # fills"]) auto
      qed
    qed
  qed
qed

lemma fillPassword_no_error_aux:
  assumes "fillPassword pw all len opts used rnd pos = Some y"
  shows "all \<noteq> [] \<longrightarrow> (\<forall>e pos'. y \<noteq> (Inl e, pos'))"
proof (rule fillPassword.raw_induct [where P = "\<lambda>pw all len opts used rnd pos y.
    all \<noteq> [] \<longrightarrow> (\<forall>e pos'. y \<noteq> (Inl e, pos'))", OF _ assms], goal_cases)
  case (1 f pw all len opts used rnd pos y)
  show ?case
  proof (intro impI allI notI)
    fix e pos'
    assume ne: "all \<noteq> []" and y: "y = (Inl e, pos')"
    then have len: "0 < length all" by simp
    show False
    proof (cases "length pw < len")
      case False
      with 1(2) y show False by simp
    next
      case True
      with 1(2) ne obtain r pos1 where
        g: "getRandomInt (length all) rnd pos = Some (r, pos1)"
        by (auto split: option.splits)
      from index_defined [OF len g] obtain j where
        j: "js_index all r = Some (all ! j)" by blast
      from True 1(2) ne g j have
        "f pw all len opts used rnd pos1 = Some y
         \<or> f (pw @ [all ! j]) all len opts (insert (all ! j) used) rnd pos1 = Some y"
        by (auto split: if_splits)
      with 1(1) ne y show False by blast
    qed
  qed
qed

lemma fillPassword_no_error:
  "all \<noteq> [] \<Longrightarrow> fillPassword pw all len opts used rnd pos \<noteq> Some (Inl e, pos')"
  using fillPassword_no_error_aux [of pw all len opts used rnd pos "(Inl e, pos')"] by blast

lemma spread_pick:
  assumes "spread all"
  shows "\<exists>d\<in>set all. \<bar>charCodeAt0 d - c0\<bar> \<noteq> 1"
proof -
  from assms obtain x y where xy: "x \<in> set all" "y \<in> set all"
    "3 \<le> \<bar>charCodeAt0 x - charCodeAt0 y\<bar>" unfolding spread_def by blast
  show ?thesis
  proof (cases "\<bar>charCodeAt0 x - c0\<bar> = 1")
    case False
    with xy(1) show ?thesis by blast
  next
    case True
    with xy(3) have "\<bar>charCodeAt0 y - c0\<bar> \<noteq> 1" by linarith
    with xy(2) show ?thesis by blast
  qed
qed

lemma spread_allChars:
  assumes "anySelected opts"
  shows "spread (concat (buildCharacterSets opts))"
proof -
  let ?A = "concat (buildCharacterSets opts)"
  have n: "CHR ''2'' \<in> set ?A \<and> CHR ''9'' \<in> set ?A" if "includeNumbers opts"
    using that unfolding set_allChars by (simp add: selectedUnion_def numbers_def similarChars_def)
  have l: "CHR ''a'' \<in> set ?A \<and> CHR ''z'' \<in> set ?A" if "includeLowercase opts"
    using that unfolding set_allChars by (simp add: selectedUnion_def lowercase_def similarChars_def)
  have u: "CHR ''A'' \<in> set ?A \<and> CHR ''Z'' \<in> set ?A" if "includeUppercase opts"
    using that unfolding set_allChars by (simp add: selectedUnion_def uppercase_def similarChars_def)
  have s: "CHR ''!'' \<in> set ?A \<and> CHR ''~'' \<in> set ?A" if "includeSymbols opts"
    using that unfolding set_allChars by (simp add: selectedUnion_def symbols_def similarChars_def)
  have "3 \<le> \<bar>charCodeAt0 CHR ''2'' - charCodeAt0 CHR ''9''\<bar>"
    "3 \<le> \<bar>charCodeAt0 CHR ''a'' - charCodeAt0 CHR ''z''\<bar>"
    "3 \<le> \<bar>charCodeAt0 CHR ''A'' - charCodeAt0 CHR ''Z''\<bar>"
    "3 \<le> \<bar>charCodeAt0 CHR ''!'' - charCodeAt0 CHR ''~''\<bar>"
    by (simp_all add: charCodeAt0_def)
  with n l u s assms show ?thesis unfolding spread_def anySelected_def by blast
qed

lemma fillPassword_returns:
  assumes fair: "fair_draws rnd" and nd: "\<not> noDuplicate opts"
    and le: "length all \<le> maxUint32" and sp: "spread all"
  shows "\<exists>y. fillPassword pw all len opts used rnd pos = Some y"
proof (induction "len - length pw" arbitrary: pw used pos)
  case 0
  then have "\<not> length pw < len" by simp
  then show ?case by (simp add: fillPassword_done)
next
  case (Suc n)
  then have lt: "length pw < len" by simp
  from spread_pick [OF sp] obtain d where
    d: "d \<in> set all" "\<bar>charCodeAt0 d - charCodeAt0 (last pw)\<bar> \<noteq> 1" by blast
  from d(1) obtain v where v: "v < length all" "all ! v = d" by (auto simp: in_set_conv_nth)
  from getRandomInt_fair [OF fair v(1) le] obtain k where
    k: "pos \<le> k" "accepted (length all) rnd k" "unat (rnd k) mod length all = v" by blast
  have "\<exists>y. fillPassword pw all len opts used rnd p = Some y" if "p \<le> k" for p
    using that
  proof (induction "k - p" arbitrary: p rule: less_induct)
    case less
    from getRandomInt_returns [OF less.prems k(2)] obtain k' where
      k': "p \<le> k'" "k' \<le> k"
      "getRandomInt (length all) rnd p = Some (js_mod (unat (rnd k')) (length all), Suc k')"
      by blast
    define j where "j = unat (rnd k') mod length all"
    from v(1) have "0 < length all" by auto
    then have j: "j < length all" "js_mod (unat (rnd k')) (length all) = Num j"
      by (simp_all add: j_def js_mod_def)
    note step = fillPassword_step [OF lt k'(3) [unfolded j(2)] j(1), of opts used]
    show ?case
    proof (cases "noSequential opts \<and> length pw > 0
                    \<and> \<bar>charCodeAt0 (all ! j) - charCodeAt0 (last pw)\<bar> = 1")
      case True
      with d(2) v(2) k(3) have "k' \<noteq> k" by (auto simp: j_def)
      with k'(1,2) have "k - Suc k' < k - p" "Suc k' \<le> k" by simp_all
      from less.hyps [OF this] obtain y where
        "fillPassword pw all len opts used rnd (Suc k') = Some y" by blast
      with step nd True show ?thesis by simp
    next
      case False
      from Suc.hyps(2) lt have "n = len - length (pw @ [all ! j])" by simp
      from Suc.hyps(1) [OF this] obtain y where
        "fillPassword (pw @ [all ! j]) all len opts (insert (all ! j) used) rnd (Suc k') = Some y"
        by blast
      with step nd False show ?thesis by auto
    qed
  qed
  from this [OF k(1)] show ?case .
qed

subsection \<open>Shuffling\<close>

lemma shuffle_Inr:
  "i < length pw \<Longrightarrow> shuffle i pw rnd pos = Some (Inr pw', pos')
     \<Longrightarrow> length pw' = length pw \<and> set pw' = set pw \<and> pos \<le> pos'"
proof (induction i pw rnd pos rule: shuffle.induct)
  case (1 i pw rnd pos)
  show ?case
  proof (cases "i > 0")
    case False
    with "1.prems" show ?thesis by (simp add: shuffle.simps)
  next
    case True
    with "1.prems"(2) obtain j pos1 where
      g: "getRandomInt (i + 1) rnd pos = Some (Num j, pos1)" and j: "j < length pw" and
      rec: "shuffle (i - 1) (pw[i := pw ! j, j := pw ! i]) rnd pos1 = Some (Inr pw', pos')"
      by (subst (asm) shuffle.simps) (auto split: option.splits jsnum.splits if_splits)
    let ?pw = "pw[i := pw ! j, j := pw ! i]"
    from "1.prems"(1) have "i - 1 < length ?pw" by simp
    from "1.IH" [OF True g refl refl j this rec]
    have "length pw' = length ?pw \<and> set pw' = set ?pw \<and> pos1 \<le> pos'" .
    moreover from "1.prems"(1) j have "set ?pw = set pw" by (simp add: set_swap)
    moreover from getRandomInt_SomeD [OF g] have "pos \<le> pos1" by auto
    ultimately show ?thesis by simp
  qed
qed

lemma shuffle_Inr':
  assumes "i \<le> length pw - 1" "shuffle i pw rnd pos = Some (Inr pw', pos')"
  shows "length pw' = length pw \<and> set pw' = set pw \<and> pos \<le> pos'"
proof (cases "i = 0")
  case True
  with assms(2) show ?thesis by (simp add: shuffle.simps)
next
  case False
  with assms(1) have "i < length pw" by simp
  from shuffle_Inr [OF this assms(2)] show ?thesis .
qed

lemma shuffle_no_error:
  "i \<le> length pw - 1 \<Longrightarrow> shuffle i pw rnd pos \<noteq> Some (Inl e, pos')"
proof (induction i pw rnd pos rule: shuffle.induct)
  case (1 i pw rnd pos)
  show ?case
  proof (cases "i > 0")
    case False
    then show ?thesis by (simp add: shuffle.simps)
  next
    case True
    show ?thesis
    proof (cases "getRandomInt (i + 1) rnd pos")
      case None
      with True show ?thesis by (subst shuffle.simps) simp
    next
      case (Some a)
      obtain r pos1 where a: "a = (r, pos1)" by (cases a)
      from getRandomInt_range(1) [OF _ Some [unfolded a]] obtain j where
        j: "j < i + 1" "r = Num j" by auto
      from j(1) True "1.prems" have jl: "j < length pw" by simp
      let ?pw = "pw[i := pw ! j, j := pw ! i]"
      from "1.prems" have "i - 1 \<le> length ?pw - 1" by simp
      from "1.IH" [OF True Some [unfolded a j(2)] refl refl jl this]
      have "shuffle (i - 1) ?pw rnd pos1 \<noteq> Some (Inl e, pos')" .
      with True Some a j(2) jl show ?thesis by (subst shuffle.simps) simp
    qed
  qed
qed

lemma shuffle_returns:
  "fair_draws rnd \<Longrightarrow> i < maxUint32 \<Longrightarrow> \<exists>y. shuffle i pw rnd pos = Some y"
proof (induction i pw rnd pos rule: shuffle.induct)
  case (1 i pw rnd pos)
  note fair = "1.prems"(1)
  show ?case
  proof (cases "i > 0")
    case False
    then show ?thesis by (simp add: shuffle.simps)
  next
    case True
    from "1.prems"(2) have "i + 1 \<le> maxUint32" by simp
    then have "\<exists>j pos1. j < i + 1 \<and> pos < pos1
        \<and> getRandomInt (i + 1) rnd pos = Some (Num j, pos1)"
      by (intro getRandomInt_fair_returns [OF fair]) simp_all
    then obtain j pos1 where
      g: "getRandomInt (i + 1) rnd pos = Some (Num j, pos1)" by (elim exE conjE)
    show ?thesis
    proof (cases "j < length pw")
      case False
      with True g show ?thesis by (subst shuffle.simps) simp
    next
      case jl: True
      from "1.prems"(2) have "i - 1 < maxUint32" by simp
      from "1.IH" [OF True g refl refl jl fair this] obtain y where
        "shuffle (i - 1) (pw[i := pw ! j, j := pw ! i]) rnd pos1 = Some y" by blast
      with True g jl show ?thesis by (subst shuffle.simps) simp
    qed
  qed
qed

subsection \<open>One assembly\<close>

lemma length_filter_unused:
  assumes "distinct all"
  shows "length all - length picks \<le> length (filter (\<lambda>c. c \<notin> set picks) all)"
proof -
  have "distinct (filter (\<lambda>c. c \<in> set picks) all)" using assms by simp
  then have "length (filter (\<lambda>c. c \<in> set picks) all) = card (set (filter (\<lambda>c. c \<in> set picks) all))"
    by (simp only: distinct_card)
  also have "\<dots> \<le> card (set picks)" by (intro card_mono) auto
  also have "\<dots> \<le> length picks" by (rule card_length)
  finally have "length (filter (\<lambda>c. c \<in> set picks) all) \<le> length picks" .
  moreover have "length (filter (\<lambda>c. c \<in> set picks) all)
      + length (filter (\<lambda>c. \<not> c \<in> set picks) all) = length all"
    by (rule sum_length_filter_compl)
  ultimately show ?thesis by simp
qed

lemma assemble_Inr:
  assumes "assemble opts sets all len rnd pos = Some (Inr pw, pos')"
  shows "length pw = max len (length sets) \<and> set pw \<subseteq> set (concat sets) \<union> set all \<and> pos \<le> pos'"
proof -
  let ?av = "\<lambda>used. if noDuplicate opts then filter (\<lambda>char. char \<notin> used) all else all"
  from assms obtain pw1 used1 pos1 pw2 used2 pos2 where
    e: "ensureCharacterTypeInclusion [] sets opts {} rnd pos = Some (Inr (pw1, used1), pos1)" and
    f: "fillPassword pw1 (?av used1) len opts used1 rnd pos1 = Some (Inr (pw2, used2), pos2)" and
    s: "shuffle (length pw2 - 1) pw2 rnd pos2 = Some (Inr pw, pos')"
    by (auto simp: assemble_def Let_def split: option.splits sum.splits prod.splits)
  from ensure_Inr [OF e] have 1: "length pw1 = length sets" "set pw1 \<subseteq> set (concat sets)"
    "pos \<le> pos1" by auto
  from fillPassword_Inr [OF f] obtain fills where 2: "pw2 = pw1 @ fills"
    "set fills \<subseteq> set (?av used1)" "length pw2 = max len (length pw1)" "pos1 \<le> pos2" by blast
  from 2(2) have 3: "set fills \<subseteq> set all" by (auto split: if_splits)
  from shuffle_Inr' [OF _ s] have 4: "length pw = length pw2" "set pw = set pw2" "pos2 \<le> pos'"
    by simp_all
  from 1 2(1,3,4) 3 4 show ?thesis by auto
qed

lemma assemble_no_error:
  assumes "distinct (concat sets)" "\<forall>s\<in>set sets. s \<noteq> []"
    "distinct all" "length sets < length all"
  shows "assemble opts sets all len rnd pos \<noteq> Some (Inl e, pos')"
proof
  assume a: "assemble opts sets all len rnd pos = Some (Inl e, pos')"
  let ?av = "\<lambda>used. if noDuplicate opts then filter (\<lambda>char. char \<notin> used) all else all"
  have e: "ensureCharacterTypeInclusion [] sets opts {} rnd pos \<noteq> Some (Inl e, pos')"
    by (rule ensure_no_error) (use assms in simp_all)
  with a obtain pw1 used1 pos1 where
    e1: "ensureCharacterTypeInclusion [] sets opts {} rnd pos = Some (Inr (pw1, used1), pos1)"
    by (auto simp: assemble_def Let_def split: option.splits sum.splits prod.splits)
  from ensure_Inr [OF e1] obtain picks where p: "used1 = set picks" "length picks = length sets"
    by auto
  from length_filter_unused [OF assms(3), of picks] p assms(4)
  have "filter (\<lambda>c. c \<notin> used1) all \<noteq> []" by (metis length_0_conv not_le zero_less_diff)
  moreover from assms(4) have "all \<noteq> []" by auto
  ultimately have ne: "?av used1 \<noteq> []" by simp
  have f: "fillPassword pw1 (?av used1) len opts used1 rnd pos1 \<noteq> Some (Inl e, pos')"
    by (rule fillPassword_no_error [OF ne])
  with a e1 obtain pw2 used2 pos2 where
    f1: "fillPassword pw1 (?av used1) len opts used1 rnd pos1 = Some (Inr (pw2, used2), pos2)" and
    s: "shuffle (length pw2 - 1) pw2 rnd pos2 = Some (Inl e, pos')"
    by (auto simp: assemble_def Let_def split: option.splits sum.splits prod.splits)
  from shuffle_no_error [of "length pw2 - 1" pw2 rnd pos2 e pos'] s show False by simp
qed

lemma assemble_returns:
  assumes fair: "fair_draws rnd" and nd: "\<not> noDuplicate opts"
    and sizes: "\<forall>s\<in>set sets. length s \<le> maxUint32" "length all \<le> maxUint32"
    and sp: "spread all" and len: "len \<le> maxUint32" "length sets \<le> maxUint32"
  shows "\<exists>y. assemble opts sets all len rnd pos = Some y"
proof -
  from ensure_returns [OF fair sizes(1), of "[]" opts "{}" pos] obtain y1 where
    e: "ensureCharacterTypeInclusion [] sets opts {} rnd pos = Some y1" by blast
  show ?thesis
  proof (cases y1)
    case (Pair r1 pos1)
    show ?thesis
    proof (cases r1)
      case (Inl e1)
      with e Pair show ?thesis by (simp add: assemble_def)
    next
      case (Inr a)
      obtain pw1 used1 where a: "a = (pw1, used1)" by (cases a)
      from fillPassword_returns [OF fair nd sizes(2) sp, of pw1 len used1 pos1] obtain y2 where
        f: "fillPassword pw1 all len opts used1 rnd pos1 = Some y2" by blast
      obtain r2 pos2 where y2: "y2 = (r2, pos2)" by (cases y2)
      show ?thesis
      proof (cases r2)
        case (Inl e2)
        with e Pair Inr a f y2 nd show ?thesis by (simp add: assemble_def)
      next
        case r2: (Inr b)
        obtain pw2 used2 where b: "b = (pw2, used2)" by (cases b)
        from ensure_Inr [OF e [unfolded Pair Inr a]] have l1: "length pw1 = length sets" by auto
        from fillPassword_Inr [OF f] y2 r2 b have "length pw2 = max len (length pw1)" by auto
        with l1 len have "length pw2 \<le> maxUint32" by simp
        moreover have "0 < maxUint32" by (simp add: maxUint32_def)
        ultimately have "length pw2 - 1 < maxUint32" by simp
        from shuffle_returns [OF fair this, of pw2 pos2] obtain y3 where
          "shuffle (length pw2 - 1) pw2 rnd pos2 = Some y3" by blast
        with e Pair Inr a f y2 r2 b nd show ?thesis by (simp add: assemble_def)
      qed
    qed
  qed
qed

section \<open>The attempt loop\<close>

lemma loop_stop:
  "\<not> (length gp < 5 \<and> attempts < 1000)
     \<Longrightarrow> generate_loop opts sets all len rnd gp entries attempts pos
         = Some (None, gp, entries, attempts, pos)"
  by (subst generate_loop.simps) (rule if_not_P)

lemma loop_diverge:
  "length gp < 5 \<Longrightarrow> attempts < 1000 \<Longrightarrow> assemble opts sets all len rnd pos = None
     \<Longrightarrow> generate_loop opts sets all len rnd gp entries attempts pos = None"
  by (subst generate_loop.simps) simp

lemma loop_throw:
  "length gp < 5 \<Longrightarrow> attempts < 1000 \<Longrightarrow> assemble opts sets all len rnd pos = Some (Inl e, pos1)
     \<Longrightarrow> generate_loop opts sets all len rnd gp entries attempts pos
         = Some (Some e, gp, entries, attempts + 1, pos1)"
  by (subst generate_loop.simps) simp

lemma loop_accept:
  "length gp < 5 \<Longrightarrow> attempts < 1000 \<Longrightarrow> assemble opts sets all len rnd pos = Some (Inr pw, pos1)
     \<Longrightarrow> pw \<notin> set gp
     \<Longrightarrow> generate_loop opts sets all len rnd gp entries attempts pos
         = generate_loop opts sets all len rnd (gp @ [pw])
             (entries @ [\<lparr>password = pw, entropy = calculateEntropy len (length all),
                          label = getPasswordStrength (calculateEntropy len (length all))\<rparr>])
             (attempts + 1) pos1"
  by (subst generate_loop.simps) (simp add: Let_def)

lemma loop_duplicate:
  "length gp < 5 \<Longrightarrow> attempts < 1000 \<Longrightarrow> assemble opts sets all len rnd pos = Some (Inr pw, pos1)
     \<Longrightarrow> pw \<in> set gp
     \<Longrightarrow> generate_loop opts sets all len rnd gp entries attempts pos
         = generate_loop opts sets all len rnd gp entries (attempts + 1) pos1"
  by (subst generate_loop.simps) simp

lemma generate_loop_result:
  assumes "generate_loop opts sets all len rnd gp entries attempts pos
             = Some (thrown, gp', entries', attempts', pos')"
  shows "attempts \<le> attempts' \<and> (attempts \<le> 1000 \<longrightarrow> attempts' \<le> 1000)
    \<and> (length gp \<le> 5 \<longrightarrow> length gp' \<le> 5)
    \<and> (thrown = None \<longrightarrow> \<not> (length gp' < 5 \<and> attempts' < 1000))
    \<and> (\<forall>e. thrown = Some e \<longrightarrow> (\<exists>p p'. assemble opts sets all len rnd p = Some (Inl e, p')))
    \<and> (\<exists>new. gp' = gp @ new
          \<and> entries' = entries @ map (\<lambda>pw. \<lparr>password = pw,
                 entropy = calculateEntropy len (length all),
                 label = getPasswordStrength (calculateEntropy len (length all))\<rparr>) new
          \<and> (distinct gp \<longrightarrow> distinct gp')
          \<and> (\<forall>pw\<in>set new. \<exists>p p'. assemble opts sets all len rnd p = Some (Inr pw, p')))"
  using assms
proof (induction "1000 - attempts" arbitrary: gp entries attempts pos rule: less_induct)
  case less
  show ?case
  proof (cases "length gp < 5 \<and> attempts < 1000")
    case False
    from less.prems loop_stop [OF False]
    have "thrown = None" "gp' = gp" "entries' = entries" "attempts' = attempts" "pos' = pos"
      by simp_all
    with False show ?thesis by auto
  next
    case True
    then have c: "length gp < 5" "attempts < 1000" by simp_all
    show ?thesis
    proof (cases "assemble opts sets all len rnd pos")
      case None
      from loop_diverge [OF c None] less.prems show ?thesis by simp
    next
      case (Some a)
      obtain r pos1 where a: "a = (r, pos1)" by (cases a)
      show ?thesis
      proof (cases r)
        case (Inl e)
        from loop_throw [OF c Some [unfolded a Inl]] less.prems
        have "thrown = Some e" "gp' = gp" "entries' = entries" "attempts' = attempts + 1"
          "pos' = pos1" by simp_all
        moreover have "\<exists>p p'. assemble opts sets all len rnd p = Some (Inl e, p')"
          using Some a Inl by blast
        ultimately show ?thesis using c by auto
      next
        case (Inr pw)
        note asm = Some [unfolded a Inr]
        have m: "1000 - (attempts + 1) < 1000 - attempts" using c by simp
        show ?thesis
        proof (cases "pw \<in> set gp")
          case True
          from loop_duplicate [OF c asm True] less.prems
          have "generate_loop opts sets all len rnd gp entries (attempts + 1) pos1
                  = Some (thrown, gp', entries', attempts', pos')" by simp
          from less.hyps [OF m this] c show ?thesis by auto
        next
          case False
          let ?e = "\<lparr>password = pw, entropy = calculateEntropy len (length all),
                     label = getPasswordStrength (calculateEntropy len (length all))\<rparr>"
          from loop_accept [OF c asm False] less.prems
          have "generate_loop opts sets all len rnd (gp @ [pw]) (entries @ [?e])
                  (attempts + 1) pos1 = Some (thrown, gp', entries', attempts', pos')" by simp
          from less.hyps [OF m this] obtain new where
            1: "attempts + 1 \<le> attempts'" "attempts + 1 \<le> 1000 \<longrightarrow> attempts' \<le> 1000"
               "length (gp @ [pw]) \<le> 5 \<longrightarrow> length gp' \<le> 5"
               "thrown = None \<longrightarrow> \<not> (length gp' < 5 \<and> attempts' < 1000)"
               "\<forall>e. thrown = Some e \<longrightarrow> (\<exists>p p'. assemble opts sets all len rnd p = Some (Inl e, p'))"
            and 2: "gp' = (gp @ [pw]) @ new"
               "entries' = (entries @ [?e]) @ map (\<lambda>pw. \<lparr>password = pw,
                 entropy = calculateEntropy len (length all),
                 label = getPasswordStrength (calculateEntropy len (length all))\<rparr>) new"
               "distinct (gp @ [pw]) \<longrightarrow> distinct gp'"
               "\<forall>pw\<in>set new. \<exists>p p'. assemble opts sets all len rnd p = Some (Inr pw, p')"
            by blast
          have "\<exists>p p'. assemble opts sets all len rnd p = Some (Inr pw, p')" using asm by blast
          with 2 False have "\<exists>new. gp' = gp @ new
            \<and> entries' = entries @ map (\<lambda>pw. \<lparr>password = pw,
                 entropy = calculateEntropy len (length all),
                 label = getPasswordStrength (calculateEntropy len (length all))\<rparr>) new
            \<and> (distinct gp \<longrightarrow> distinct gp')
            \<and> (\<forall>pw\<in>set new. \<exists>p p'. assemble opts sets all len rnd p = Some (Inr pw, p'))"
            by (intro exI [of _ "pw # new"]) auto
          with 1 c show ?thesis by auto
        qed
      qed
    qed
  qed
qed

section \<open>Running the model on given draws\<close>

text \<open>
  A draw below \<open>2 ^ 31\<close> is accepted for every bound up to \<open>65536\<close>, so on such draws one
  iteration of each loop unfolds without a search.
\<close>

lemma getRandomInt_small:
  assumes "0 < mx" "mx \<le> 65536" "unat (rnd pos) < 2 ^ 31"
  shows "getRandomInt mx rnd pos = Some (Num (unat (rnd pos) mod mx), Suc pos)"
proof -
  have "maxUint32 mod mx < mx" using assms(1) by simp
  with assms(2,3) have "unat (rnd pos) < maxUint32 - maxUint32 mod mx"
    by (simp add: maxUint32_def)
  with assms(1) have "accepted mx rnd pos"
    by (simp add: accepted_def limit_pos js_ge_def not_le)
  from getRandomInt_accept [OF this] assms(1) show ?thesis by (simp add: js_mod_def)
qed

lemma ensure_unfold:
  assumes "0 < length (if noDuplicate opts then filter (\<lambda>char. char \<notin> used) s else s)"
    "length (if noDuplicate opts then filter (\<lambda>char. char \<notin> used) s else s) \<le> 65536"
    "unat (rnd pos) < 2 ^ 31"
  shows "ensureCharacterTypeInclusion pw (s # sets) opts used rnd pos =
     (let av = (if noDuplicate opts then filter (\<lambda>char. char \<notin> used) s else s);
          c = av ! (unat (rnd pos) mod length av)
      in ensureCharacterTypeInclusion (pw @ [c]) sets opts (insert c used) rnd (Suc pos))"
proof -
  let ?av = "if noDuplicate opts then filter (\<lambda>char. char \<notin> used) s else s"
  note g = getRandomInt_small [of "length ?av" rnd pos, OF assms]
  from assms(1) have "unat (rnd pos) mod length ?av < length ?av" by (rule mod_less_divisor)
  then have "js_index ?av (Num (unat (rnd pos) mod length ?av))
               = Some (?av ! (unat (rnd pos) mod length ?av))" by (simp add: js_index_def)
  with g assms(1) show ?thesis by (simp add: Let_def)
qed

lemma fillPassword_unfold:
  assumes "length pw < len" "0 < length all" "length all \<le> 65536" "unat (rnd pos) < 2 ^ 31"
  shows "fillPassword pw all len opts used rnd pos =
     (let c = all ! (unat (rnd pos) mod length all)
      in if noDuplicate opts \<and> c \<in> used
         then fillPassword pw all len opts used rnd (Suc pos)
         else if noSequential opts \<and> length pw > 0
                 \<and> \<bar>charCodeAt0 c - charCodeAt0 (last pw)\<bar> = 1
         then fillPassword pw all len opts used rnd (Suc pos)
         else fillPassword (pw @ [c]) all len opts (insert c used) rnd (Suc pos))"
proof -
  from assms(2) have "unat (rnd pos) mod length all < length all" by (rule mod_less_divisor)
  from fillPassword_step [OF assms(1) getRandomInt_small [of "length all" rnd pos, OF assms(2,3,4)] this]
  show ?thesis by (simp add: Let_def)
qed

lemma shuffle_unfold:
  assumes "0 < i" "i < 65536" "unat (rnd pos) < 2 ^ 31"
  shows "shuffle i pw rnd pos =
     (let j = unat (rnd pos) mod (i + 1)
      in if j < length pw
         then shuffle (i - 1) (pw[i := pw ! j, j := pw ! i]) rnd (Suc pos)
         else Some (Inl UndefinedElement, Suc pos))"
proof -
  from assms(2) have "0 < i + 1" "i + 1 \<le> 65536" by simp_all
  from getRandomInt_small [of "i + 1" rnd pos, OF this assms(3)] assms(1) show ?thesis
    by (subst shuffle.simps) (simp add: Let_def)
qed

lemma shuffle_zero: "shuffle 0 pw rnd pos = Some (Inr pw, pos)"
  by (simp add: shuffle.simps)

lemma length_Cons_plus: "length (x # xs) = length xs + 1"
  by simp

lemma mod_Suc_Suc_0: "n mod Suc (Suc 0) = n mod 2"
  by (simp add: numeral_2_eq_2)

lemmas run_simps =
  length_Cons_plus mod_Suc_Suc_0
  assemble_def buildCharacterSets_def numbers_def lowercase_def uppercase_def symbols_def
  similarChars_def ensure_unfold fillPassword_unfold fillPassword_done shuffle_unfold
  shuffle_zero charCodeAt0_def Let_def

section \<open>The length precheck\<close>

text \<open>
  C5: with \<open>noDuplicate\<close> set and a length above the size of the full alphabet, the handler
  shows the "cannot generate without duplicates" message and returns at once: the list of
  passwords on the page is untouched (nothing is produced) and no draw is consumed, whatever
  the random source holds.
\<close>

theorem length_precheck_fails_first:
  assumes "noDuplicate opts" "length (concat (buildCharacterSets opts)) < len"
  shows "generate d opts len rnd pos
           = Some (d\<lparr>error_message := Some (CannotGenerateWithoutDuplicates len)\<rparr>, pos)
    \<and> (anySelected opts \<longrightarrow>
         onGenerateClick d opts len rnd pos
           = Some (d\<lparr>error_message := Some (CannotGenerateWithoutDuplicates len)\<rparr>, pos))"
  using assms
  by (simp add: generate_def onGenerateClick_def anySelected_def displayError_def clearError_def
      Let_def)

text \<open>Numbers only, length 15, no duplicates: the alphabet has 10 characters.\<close>

theorem length_precheck_fails_first_witness:
  "noDuplicate opts_c5 \<and> length (concat (buildCharacterSets opts_c5)) = 10
   \<and> anySelected opts_c5
   \<and> onGenerateClick d0 opts_c5 15 rnd_zero 0
       = Some (\<lparr>error_message = Some (CannotGenerateWithoutDuplicates 15), passwords = []\<rparr>, 0)"
proof -
  have 1: "noDuplicate opts_c5" by (simp add: opts_c5_def)
  have 2: "length (concat (buildCharacterSets opts_c5)) = 10"
    by (simp add: opts_c5_def buildCharacterSets_def numbers_def)
  then have 3: "length (concat (buildCharacterSets opts_c5)) < 15" by simp
  have 4: "anySelected opts_c5" by (simp add: opts_c5_def anySelected_def)
  from length_precheck_fails_first [OF 1 3, of d0 rnd_zero 0] 1 2 4 show ?thesis
    by (simp add: d0_def)
qed

section \<open>The characters of a candidate\<close>

lemma similarChars_set:
  "set similarChars = {CHR ''i'', CHR ''l'', CHR ''1'', CHR ''L'', CHR ''o'', CHR ''0'', CHR ''O''}"
  by (simp add: similarChars_def)

lemma loop_passwords:
  assumes "generate_loop opts sets all len rnd [] [] 0 pos
             = Some (thrown, gp, entries, attempts, pos')"
  shows "map password entries = gp"
    "\<forall>pw\<in>set gp. \<exists>p p'. assemble opts sets all len rnd p = Some (Inr pw, p')"
  using generate_loop_result [OF assms] by (auto simp: comp_def)

text \<open>
  C8: every character of a candidate that one assembly returns lies in the union of the base
  alphabets of the selected types, and with \<open>noSimilar\<close> set none of the seven characters
  i, l, 1, L, o, 0, O occurs in it; the same holds for every password the attempt loop puts
  on the page.
\<close>

theorem candidate_within_selected_alphabets:
  "(\<forall>pw pos'.
      assemble opts (buildCharacterSets opts) (concat (buildCharacterSets opts)) len rnd pos
        = Some (Inr pw, pos') \<longrightarrow>
      set pw \<subseteq> selectedUnion opts
      \<and> (noSimilar opts \<longrightarrow>
           set pw \<inter> {CHR ''i'', CHR ''l'', CHR ''1'', CHR ''L'', CHR ''o'', CHR ''0'', CHR ''O''} = {}))
   \<and> (\<forall>thrown gp entries attempts pos'.
      generate_loop opts (buildCharacterSets opts) (concat (buildCharacterSets opts)) len rnd
        [] [] 0 pos = Some (thrown, gp, entries, attempts, pos') \<longrightarrow>
      (\<forall>e\<in>set entries.
         set (password e) \<subseteq> selectedUnion opts
         \<and> (noSimilar opts \<longrightarrow>
              set (password e)
                \<inter> {CHR ''i'', CHR ''l'', CHR ''1'', CHR ''L'', CHR ''o'', CHR ''0'', CHR ''O''} = {})))"
proof -
  let ?S = "{CHR ''i'', CHR ''l'', CHR ''1'', CHR ''L'', CHR ''o'', CHR ''0'', CHR ''O''}"
  have one: "set pw \<subseteq> selectedUnion opts \<and> (noSimilar opts \<longrightarrow> set pw \<inter> ?S = {})"
    if "assemble opts (buildCharacterSets opts) (concat (buildCharacterSets opts)) len rnd p
          = Some (Inr pw, p')" for pw p p'
  proof -
    from assemble_Inr [OF that]
    have "set pw \<subseteq> set (concat (buildCharacterSets opts))" by simp
    then have "set pw \<subseteq> {c \<in> selectedUnion opts. noSimilar opts \<longrightarrow> c \<notin> set similarChars}"
      by (simp only: set_allChars)
    then show ?thesis unfolding similarChars_set by blast
  qed
  have "\<forall>e\<in>set entries.
         set (password e) \<subseteq> selectedUnion opts
         \<and> (noSimilar opts \<longrightarrow> set (password e) \<inter> ?S = {})"
    if run: "generate_loop opts (buildCharacterSets opts) (concat (buildCharacterSets opts)) len rnd
        [] [] 0 pos = Some (thrown, gp, entries, attempts, pos')"
    for thrown gp entries attempts pos'
  proof
    fix e assume "e \<in> set entries"
    then have "password e \<in> set (map password entries)" by simp
    with loop_passwords [OF run] obtain p p' where
      "assemble opts (buildCharacterSets opts) (concat (buildCharacterSets opts)) len rnd p
          = Some (Inr (password e), p')" by auto
    from one [OF this]
    show "set (password e) \<subseteq> selectedUnion opts
         \<and> (noSimilar opts \<longrightarrow> set (password e) \<inter> ?S = {})" .
  qed
  with one show ?thesis by blast
qed

text \<open>Lowercase letters without similar characters, six characters long.\<close>

theorem candidate_within_selected_alphabets_witness:
  "assemble opts_c8 (buildCharacterSets opts_c8) (concat (buildCharacterSets opts_c8)) 6
     (prepend draws_c8 rnd_zero) 0 = Some (Inr ''agjcem'', 16)
   \<and> noSimilar opts_c8
   \<and> set ''agjcem'' \<subseteq> selectedUnion opts_c8
   \<and> set ''agjcem'' \<inter> {CHR ''i'', CHR ''l'', CHR ''1'', CHR ''L'', CHR ''o'', CHR ''0'', CHR ''O''} = {}"
proof -
  have run: "assemble opts_c8 (buildCharacterSets opts_c8) (concat (buildCharacterSets opts_c8)) 6
     (prepend draws_c8 rnd_zero) 0 = Some (Inr ''agjcem'', 16)"
    by (simp add: run_simps opts_c8_def draws_c8_def
        del: ensureCharacterTypeInclusion.simps(2) list.size(4))
  have ns: "noSimilar opts_c8" by (simp add: opts_c8_def)
  from candidate_within_selected_alphabets [of opts_c8 6 "prepend draws_c8 rnd_zero" 0] run ns
  show ?thesis by blast
qed

section \<open>The structural errors\<close>

lemma allChars_no_error:
  assumes "anySelected opts"
  shows "assemble opts (buildCharacterSets opts) (concat (buildCharacterSets opts)) len rnd pos
           \<noteq> Some (Inl e, pos')"
proof (rule assemble_no_error)
  show "distinct (concat (buildCharacterSets opts))" by (rule distinct_allChars)
  show "distinct (concat (buildCharacterSets opts))" by (rule distinct_allChars)
  show "\<forall>s\<in>set (buildCharacterSets opts). s \<noteq> []" using class_sizes(1) by fastforce
  from length_buildCharacterSets(2) [OF assms] length_allChars(2) [of opts]
  show "length (buildCharacterSets opts) < length (concat (buildCharacterSets opts))" by linarith
qed

lemma available_nonempty:
  assumes "anySelected opts"
    "ensureCharacterTypeInclusion [] (buildCharacterSets opts) opts {} rnd pos
       = Some (Inr (pw, used), pos1)"
  shows "(if noDuplicate opts
          then filter (\<lambda>char. char \<notin> used) (concat (buildCharacterSets opts))
          else concat (buildCharacterSets opts)) \<noteq> []"
proof -
  let ?all = "concat (buildCharacterSets opts)"
  from length_buildCharacterSets(2) [OF assms(1)] length_allChars(2) [of opts]
  have lt: "length (buildCharacterSets opts) < length ?all" by linarith
  from ensure_Inr [OF assms(2)] obtain picks where
    p: "used = set picks" "length picks = length (buildCharacterSets opts)" by auto
  from length_filter_unused [OF distinct_allChars, of opts picks] p(2) lt
  have "0 < length (filter (\<lambda>c. c \<notin> set picks) ?all)" by linarith
  then have "0 < length (filter (\<lambda>c. c \<notin> used) ?all)" by (simp only: p(1))
  moreover from lt have "0 < length ?all" by linarith
  ultimately show ?thesis by auto
qed

lemma handler_shows_no_thrown_error:
  assumes "anySelected opts" "onGenerateClick d opts len rnd pos = Some (d', pos')"
  shows "error_message d' \<noteq> Some (ErrorMessage e)"
proof
  assume bad: "error_message d' = Some (ErrorMessage e)"
  let ?sets = "buildCharacterSets opts"
  let ?all = "concat ?sets"
  from assms have g: "generate (clearError d) opts len rnd pos = Some (d', pos')"
    by (auto simp: onGenerateClick_def anySelected_def split: if_splits)
  show False
  proof (cases "noDuplicate opts \<and> len > length ?all")
    case True
    with g bad show False by (auto simp: generate_def displayError_def Let_def)
  next
    case False
    with g obtain thrown gp entries attempts where
      run: "generate_loop opts ?sets ?all len rnd [] [] 0 pos
              = Some (thrown, gp, entries, attempts, pos')"
      by (auto simp: generate_def Let_def split: option.splits prod.splits if_splits)
    with g False bad have "thrown = Some e"
      by (auto simp: generate_def Let_def displayError_def clearError_def
          split: option.splits if_splits)
    with generate_loop_result [OF run] obtain p p' where
      "assemble opts ?sets ?all len rnd p = Some (Inl e, p')" by blast
    with allChars_no_error [OF assms(1)] show False by blast
  qed
qed

text \<open>
  C10: the four base alphabets are pairwise disjoint and none of them is emptied by removing
  the similar characters; so, with at least one type selected, seeding never throws "cannot
  include at least one character from each selected type", the array of available characters
  is non-empty when filling starts, one assembly never ends in an error, and the handler never
  shows a thrown error.
\<close>

theorem structural_errors_unreachable:
  assumes "anySelected opts"
  shows "set numbers \<inter> set lowercase = {} \<and> set numbers \<inter> set uppercase = {}
    \<and> set numbers \<inter> set symbols = {} \<and> set lowercase \<inter> set uppercase = {}
    \<and> set lowercase \<inter> set symbols = {} \<and> set uppercase \<inter> set symbols = {}
    \<and> filter (\<lambda>c. c \<notin> set similarChars) numbers \<noteq> []
    \<and> filter (\<lambda>c. c \<notin> set similarChars) lowercase \<noteq> []
    \<and> filter (\<lambda>c. c \<notin> set similarChars) uppercase \<noteq> []
    \<and> filter (\<lambda>c. c \<notin> set similarChars) symbols \<noteq> []
    \<and> (\<forall>e pos'. ensureCharacterTypeInclusion [] (buildCharacterSets opts) opts {} rnd pos
                    \<noteq> Some (Inl e, pos'))
    \<and> (\<forall>pw used pos1.
          ensureCharacterTypeInclusion [] (buildCharacterSets opts) opts {} rnd pos
            = Some (Inr (pw, used), pos1) \<longrightarrow>
          (if noDuplicate opts
           then filter (\<lambda>char. char \<notin> used) (concat (buildCharacterSets opts))
           else concat (buildCharacterSets opts)) \<noteq> [])
    \<and> (\<forall>e pos'. assemble opts (buildCharacterSets opts) (concat (buildCharacterSets opts))
                    len rnd pos \<noteq> Some (Inl e, pos'))
    \<and> (\<forall>d' pos' e. onGenerateClick d opts len rnd pos = Some (d', pos') \<longrightarrow>
                      error_message d' \<noteq> Some (ErrorMessage e))"
proof -
  have nonempty: "filter (\<lambda>c. c \<notin> set similarChars) numbers \<noteq> []"
    "filter (\<lambda>c. c \<notin> set similarChars) lowercase \<noteq> []"
    "filter (\<lambda>c. c \<notin> set similarChars) uppercase \<noteq> []"
    "filter (\<lambda>c. c \<notin> set similarChars) symbols \<noteq> []"
    by (simp_all add: filtered_base) (simp add: symbols_def)
  have seed: "ensureCharacterTypeInclusion [] (buildCharacterSets opts) opts {} rnd pos
                \<noteq> Some (Inl e, pos')" for e pos'
  proof (rule ensure_no_error)
    show "distinct (concat (buildCharacterSets opts))" by (rule distinct_allChars)
    show "{} \<inter> set (concat (buildCharacterSets opts)) = {}" by simp
    show "\<forall>s\<in>set (buildCharacterSets opts). s \<noteq> []" using class_sizes(1) by fastforce
  qed
  have avail: "\<forall>pw used pos1.
          ensureCharacterTypeInclusion [] (buildCharacterSets opts) opts {} rnd pos
            = Some (Inr (pw, used), pos1) \<longrightarrow>
          (if noDuplicate opts
           then filter (\<lambda>char. char \<notin> used) (concat (buildCharacterSets opts))
           else concat (buildCharacterSets opts)) \<noteq> []"
    using available_nonempty [OF assms] by blast
  have asm: "\<forall>e pos'. assemble opts (buildCharacterSets opts) (concat (buildCharacterSets opts))
                    len rnd pos \<noteq> Some (Inl e, pos')"
    using allChars_no_error [OF assms] by blast
  have hnd: "\<forall>d' pos' e. onGenerateClick d opts len rnd pos = Some (d', pos') \<longrightarrow>
                      error_message d' \<noteq> Some (ErrorMessage e)"
    using handler_shows_no_thrown_error [OF assms] by blast
  from seed have seed': "\<forall>e pos'. ensureCharacterTypeInclusion [] (buildCharacterSets opts) opts {}
         rnd pos \<noteq> Some (Inl e, pos')" by blast
  show ?thesis
    by (intro conjI disjoint_base nonempty seed' avail asm hnd)
qed

text \<open>All four types, no similar characters, no duplicates, twenty characters.\<close>

theorem structural_errors_unreachable_witness:
  "anySelected opts_c10
   \<and> assemble opts_c10 (buildCharacterSets opts_c10) (concat (buildCharacterSets opts_c10)) 20
       (prepend draws_c10 rnd_zero) 0 = Some (Inr ''hUM{Hx3:)%P6g>[C4Zsb'', 39)
   \<and> (\<forall>e pos'. ensureCharacterTypeInclusion [] (buildCharacterSets opts_c10) opts_c10 {}
         (prepend draws_c10 rnd_zero) 0 \<noteq> Some (Inl e, pos'))"
proof -
  have sel: "anySelected opts_c10" by (simp add: anySelected_def opts_c10_def)
  have run: "assemble opts_c10 (buildCharacterSets opts_c10) (concat (buildCharacterSets opts_c10))
      20 (prepend draws_c10 rnd_zero) 0 = Some (Inr ''hUM{Hx3:)%P6g>[C4Zsb'', 39)"
    by (simp add: run_simps opts_c10_def draws_c10_def
        del: ensureCharacterTypeInclusion.simps(2) list.size(4))
  from structural_errors_unreachable [OF sel, of "prepend draws_c10 rnd_zero" 0] sel run
  show ?thesis by blast
qed

section \<open>The length of a candidate\<close>

text \<open>The draws 0, 1, 2, ... are fair: the draw at position \<open>2 ^ 32 * pos + v\<close> is \<open>v\<close>.\<close>

lemma fair_draws_rnd_count: "fair_draws rnd_count"
  unfolding fair_draws_def
proof (intro allI impI)
  fix mx v pos :: nat
  assume v: "v < mx" and mx: "mx \<le> maxUint32"
  let ?k = "2 ^ 32 * pos + v"
  from v mx have v32: "v < 2 ^ 32" by (simp add: maxUint32_def)
  have "unat (rnd_count ?k) = ?k mod 2 ^ 32"
    unfolding rnd_count_def by (simp add: unat_of_nat del: of_nat_add of_nat_mult)
  also have "\<dots> = v" using v32 by simp
  finally have u: "unat (rnd_count ?k) = v" .
  from v have pos: "0 < mx" by simp
  with mx have "1 \<le> maxUint32 div mx" by (simp add: Suc_leI div_greater_zero_iff)
  then have "1 * mx \<le> maxUint32 div mx * mx" by (rule mult_le_mono1)
  then have "mx \<le> maxUint32 div mx * mx" by (simp only: mult_1)
  with v have "v < maxUint32 div mx * mx" by (rule less_le_trans)
  with u pos have "accepted mx rnd_count ?k" by (simp add: accepted_iff)
  moreover from u v have "unat (rnd_count ?k) mod mx = v" by simp
  moreover have "pos \<le> ?k" by simp
  ultimately show "\<exists>k\<ge>pos. accepted mx rnd_count k \<and> unat (rnd_count k) mod mx = v" by blast
qed

text \<open>
  C7, as stated, fails: with four types selected and length 2 the seeding alone places four
  characters.
\<close>

theorem assembly_length_counterexample:
  "anySelected opts_c7 \<and> \<not> noDuplicate opts_c7
   \<and> assemble opts_c7 (buildCharacterSets opts_c7) (concat (buildCharacterSets opts_c7)) 2
       (prepend draws_c7 rnd_zero) 0 = Some (Inr ''A!0a'', 7)
   \<and> length ''A!0a'' \<noteq> 2"
  by (simp add: run_simps opts_c7_def draws_c7_def anySelected_def
      del: ensureCharacterTypeInclusion.simps(2) list.size(4))

text \<open>
  C7, amended: with at least one type selected and \<open>noDuplicate\<close> off, one assembly never
  ends in an error; whenever it returns, the candidate has \<open>max len k\<close> characters, where
  \<open>k\<close> is the number of selected types (so exactly \<open>len\<close> when \<open>len \<ge> k\<close>, and \<open>k\<close> when
  \<open>len\<close> is smaller); and it does return on every fair sequence of draws, for every length up
  to \<open>2 ^ 32 - 1\<close>.
\<close>

theorem assembly_length:
  assumes "anySelected opts" "\<not> noDuplicate opts"
  shows "(\<forall>e pos'. assemble opts (buildCharacterSets opts) (concat (buildCharacterSets opts))
                    len rnd pos \<noteq> Some (Inl e, pos'))
    \<and> (\<forall>pw pos'. assemble opts (buildCharacterSets opts) (concat (buildCharacterSets opts))
                    len rnd pos = Some (Inr pw, pos') \<longrightarrow>
           length pw = max len (length (buildCharacterSets opts))
           \<and> (length (buildCharacterSets opts) \<le> len \<longrightarrow> length pw = len))
    \<and> (fair_draws rnd \<and> len \<le> maxUint32 \<longrightarrow>
         (\<exists>pw pos'. assemble opts (buildCharacterSets opts) (concat (buildCharacterSets opts))
                      len rnd pos = Some (Inr pw, pos')
                    \<and> length pw = max len (length (buildCharacterSets opts))))"
proof -
  let ?sets = "buildCharacterSets opts"
  let ?all = "concat ?sets"
  have noerr: "\<forall>e pos'. assemble opts ?sets ?all len rnd pos \<noteq> Some (Inl e, pos')"
    using allChars_no_error [OF assms(1)] by blast
  have len: "\<forall>pw pos'. assemble opts ?sets ?all len rnd pos = Some (Inr pw, pos') \<longrightarrow>
           length pw = max len (length ?sets) \<and> (length ?sets \<le> len \<longrightarrow> length pw = len)"
    using assemble_Inr by fastforce
  have ret: "\<exists>pw pos'. assemble opts ?sets ?all len rnd pos = Some (Inr pw, pos')
                    \<and> length pw = max len (length ?sets)"
    if fair: "fair_draws rnd" and le: "len \<le> maxUint32"
  proof -
    have 1: "\<forall>s\<in>set ?sets. length s \<le> maxUint32"
      using class_sizes(2) [of _ opts] by (fastforce simp: maxUint32_def)
    have 2: "length ?all \<le> maxUint32"
      using length_allChars(1) [of opts] by (simp add: maxUint32_def)
    have 3: "length ?sets \<le> maxUint32"
      using length_buildCharacterSets(1) [of opts] by (simp add: maxUint32_def)
    from assemble_returns [OF fair assms(2) 1 2 spread_allChars [OF assms(1)] le 3, of pos]
    obtain y where y: "assemble opts ?sets ?all len rnd pos = Some y" by blast
    obtain r pos' where "y = (r, pos')" by (cases y)
    with y noerr obtain pw where "assemble opts ?sets ?all len rnd pos = Some (Inr pw, pos')"
      by (cases r) auto
    with len show ?thesis by blast
  qed
  from noerr len ret show ?thesis by blast
qed

text \<open>Lowercase letters, no sequential characters, length 6, on the draws 0, 1, 2, ...\<close>

theorem assembly_length_witness:
  "anySelected opts_c8 \<and> \<not> noDuplicate opts_c8 \<and> fair_draws rnd_count \<and> 6 \<le> maxUint32
   \<and> (\<exists>pw pos'. assemble opts_c8 (buildCharacterSets opts_c8)
                    (concat (buildCharacterSets opts_c8)) 6 rnd_count 0 = Some (Inr pw, pos')
                  \<and> length pw = 6)"
proof -
  have 1: "anySelected opts_c8" by (simp add: anySelected_def opts_c8_def)
  have 2: "\<not> noDuplicate opts_c8" by (simp add: opts_c8_def)
  have 3: "(6::nat) \<le> maxUint32" by (simp add: maxUint32_def)
  have 4: "length (buildCharacterSets opts_c8) = 1"
    by (simp add: buildCharacterSets_def opts_c8_def)
  from assembly_length [OF 1 2, of 6 rnd_count 0] fair_draws_rnd_count 1 2 3 4
  show ?thesis by simp
qed

section \<open>A fill loop that never ends\<close>

text \<open>
  A state of the fill loop in which every character of the array is refused, as used or as
  adjacent to the last one placed, is a dead end: the loop never leaves it, whatever is drawn.
\<close>

lemma fillPassword_dead_end:
  assumes "length pw < len" "all \<noteq> []"
    "\<forall>c\<in>set all. (noDuplicate opts \<and> c \<in> used)
        \<or> (noSequential opts \<and> length pw > 0 \<and> \<bar>charCodeAt0 c - charCodeAt0 (last pw)\<bar> = 1)"
  shows "fillPassword pw all len opts used rnd pos = None"
proof (rule ccontr)
  assume "fillPassword pw all len opts used rnd pos \<noteq> None"
  then obtain y where y: "fillPassword pw all len opts used rnd pos = Some y" by blast
  have "\<not> (length pw < len \<and> all \<noteq> []
          \<and> (\<forall>c\<in>set all. (noDuplicate opts \<and> c \<in> used)
                \<or> (noSequential opts \<and> length pw > 0
                     \<and> \<bar>charCodeAt0 c - charCodeAt0 (last pw)\<bar> = 1)))"
  proof (rule fillPassword.raw_induct [where P = "\<lambda>pw all len opts used rnd pos y.
      \<not> (length pw < len \<and> all \<noteq> []
          \<and> (\<forall>c\<in>set all. (noDuplicate opts \<and> c \<in> used)
                \<or> (noSequential opts \<and> length pw > 0
                     \<and> \<bar>charCodeAt0 c - charCodeAt0 (last pw)\<bar> = 1)))", OF _ y], goal_cases)
    case (1 f pw all len opts used rnd pos y)
    show ?case
    proof
      assume stuck: "length pw < len \<and> all \<noteq> []
          \<and> (\<forall>c\<in>set all. (noDuplicate opts \<and> c \<in> used)
                \<or> (noSequential opts \<and> length pw > 0
                     \<and> \<bar>charCodeAt0 c - charCodeAt0 (last pw)\<bar> = 1))"
      then have lt: "length pw < len" and len: "0 < length all" by simp_all
      with 1(2) obtain r pos1 where
        g: "getRandomInt (length all) rnd pos = Some (r, pos1)"
        by (auto split: option.splits)
      from index_defined [OF len g] obtain j where
        j: "j < length all" "js_index all r = Some (all ! j)" by blast
      from j(1) have "all ! j \<in> set all" by simp
      with stuck have "(noDuplicate opts \<and> all ! j \<in> used)
          \<or> (noSequential opts \<and> length pw > 0
              \<and> \<bar>charCodeAt0 (all ! j) - charCodeAt0 (last pw)\<bar> = 1)" by blast
      with 1(2) lt len g j(2) have "f pw all len opts used rnd pos1 = Some y"
        by (auto split: if_splits)
      from 1(1) [OF this] stuck show False by blast
    qed
  qed
  with assms show False by blast
qed

lemma assemble_c2:
  "assemble opts_c2 (buildCharacterSets opts_c2) (concat (buildCharacterSets opts_c2)) 10
     (prepend draws_c2 rnd) 0 = None"
  by (simp add: run_simps fillPassword_dead_end opts_c2_def draws_c2_def
      del: ensureCharacterTypeInclusion.simps(2) list.size(4))

text \<open>
  C2 fails on the code: numbers only, no duplicates, no sequential characters, length 10.
  After the draws that place 1, 3, 5, 7, 0, 2, 4, 6, 8 the only unused digit is 9, which is
  adjacent to the 8 placed last; the fill loop redraws forever, so the handler never returns,
  however the sequence of draws continues.
\<close>

theorem fill_loop_can_hang:
  "noDuplicate opts_c2 \<and> noSequential opts_c2 \<and> anySelected opts_c2
   \<and> \<not> length (concat (buildCharacterSets opts_c2)) < 10
   \<and> onGenerateClick d opts_c2 10 (prepend draws_c2 rnd) 0 = None"
proof -
  have len: "length (concat (buildCharacterSets opts_c2)) = 10"
    by (simp add: buildCharacterSets_def opts_c2_def numbers_def)
  have "generate_loop opts_c2 (buildCharacterSets opts_c2) (concat (buildCharacterSets opts_c2))
          10 (prepend draws_c2 rnd) [] [] 0 0 = None"
    by (rule loop_diverge [OF _ _ assemble_c2]) simp_all
  with len have "generate (clearError d) opts_c2 10 (prepend draws_c2 rnd) 0 = None"
    by (simp add: generate_def Let_def)
  with len show ?thesis
    by (simp add: onGenerateClick_def anySelected_def opts_c2_def)
qed

section \<open>The shuffle and adjacent characters\<close>

text \<open>
  C1 fails on the code: lowercase letters, \<open>noSequential\<close> set, length 6. The fill loop
  places a, c, e, g, i, b, each not adjacent to the one before; the shuffle then swaps the
  last position with the second, and the first password shown is "abegic", with a next to b.
\<close>

theorem shuffle_breaks_noSequential:
  "noSequential opts_c1
   \<and> onGenerateClick d0 opts_c1 6 (prepend draws_c1 rnd_zero) 0
       = Some (\<lparr>error_message = None,
                 passwords = map (\<lambda>pw. \<lparr>password = pw,
                                   entropy = calculateEntropy 6 (length lowercase),
                                   label = getPasswordStrength
                                             (calculateEntropy 6 (length lowercase))\<rparr>)
                               [''abegic'', ''kbegic'', ''mbegic'', ''obegic'', ''qbegic'']\<rparr>, 55)
   \<and> \<not> noAdjacentSequential ''abegic''"
  by (simp add: run_simps onGenerateClick_def generate_def generate_loop.simps clearError_def
      displayError_def d0_def opts_c1_def draws_c1_def
      del: ensureCharacterTypeInclusion.simps(2) list.size(4))

section \<open>The bounds of the attempt loop\<close>

subsection \<open>A run that exhausts the attempts\<close>

text \<open>When every draw is 0, every assembly yields the same password from eleven draws.\<close>

lemma assemble_zero:
  "assemble opts_c6 (buildCharacterSets opts_c6) (concat (buildCharacterSets opts_c6)) 6
     rnd_zero pos = Some (Inr ''aaaaaa'', pos + 11)"
  by (simp add: run_simps opts_c6_def rnd_zero_def
      del: ensureCharacterTypeInclusion.simps(2) list.size(4))

lemma loop_zero:
  assumes "attempts \<le> 1000"
  shows "generate_loop opts_c6 (buildCharacterSets opts_c6) (concat (buildCharacterSets opts_c6)) 6
           rnd_zero [''aaaaaa''] entries attempts pos
         = Some (None, [''aaaaaa''], entries, 1000, pos + 11 * (1000 - attempts))"
  using assms
proof (induction "1000 - attempts" arbitrary: attempts pos)
  case 0
  then have "attempts = 1000" by simp
  then show ?case by (simp add: loop_stop)
next
  case (Suc n)
  then have lt: "attempts < 1000" and n: "n = 1000 - (attempts + 1)" and
    le: "attempts + 1 \<le> 1000" by simp_all
  have "generate_loop opts_c6 (buildCharacterSets opts_c6) (concat (buildCharacterSets opts_c6)) 6
           rnd_zero [''aaaaaa''] entries attempts pos
      = generate_loop opts_c6 (buildCharacterSets opts_c6) (concat (buildCharacterSets opts_c6)) 6
           rnd_zero [''aaaaaa''] entries (attempts + 1) (pos + 11)"
    by (rule loop_duplicate [OF _ lt assemble_zero]) simp_all
  also have "\<dots> = Some (None, [''aaaaaa''], entries, 1000,
                       (pos + 11) + 11 * (1000 - (attempts + 1)))"
    by (rule Suc.hyps(1) [OF n le])
  also have "(pos + 11) + 11 * (1000 - (attempts + 1)) = pos + 11 * (1000 - attempts)"
    using lt by simp
  finally show ?case .
qed

lemma loop_run_zero:
  "generate_loop opts_c6 (buildCharacterSets opts_c6) (concat (buildCharacterSets opts_c6)) 6
     rnd_zero [] [] 0 0 = Some (None, [''aaaaaa''], [entry_c6], 1000, 11000)"
proof -
  have len: "length (concat (buildCharacterSets opts_c6)) = length lowercase"
    by (simp add: buildCharacterSets_def opts_c6_def)
  have "generate_loop opts_c6 (buildCharacterSets opts_c6) (concat (buildCharacterSets opts_c6)) 6
          rnd_zero [] [] 0 0
      = generate_loop opts_c6 (buildCharacterSets opts_c6) (concat (buildCharacterSets opts_c6)) 6
          rnd_zero ([] @ [''aaaaaa''])
          ([] @ [\<lparr>password = ''aaaaaa'',
                   entropy = calculateEntropy 6 (length (concat (buildCharacterSets opts_c6))),
                   label = getPasswordStrength
                     (calculateEntropy 6 (length (concat (buildCharacterSets opts_c6))))\<rparr>])
          (0 + 1) (0 + 11)"
    by (rule loop_accept [OF _ _ assemble_zero]) simp_all
  also have "\<dots> = generate_loop opts_c6 (buildCharacterSets opts_c6)
      (concat (buildCharacterSets opts_c6)) 6 rnd_zero [''aaaaaa''] [entry_c6] 1 11"
    by (simp add: entry_c6_def len)
  also have "\<dots> = Some (None, [''aaaaaa''], [entry_c6], 1000, 11 + 11 * (1000 - 1))"
    by (rule loop_zero) simp
  finally show ?thesis by simp
qed

text \<open>
  C6: the loop stops without a further attempt once five passwords are accepted or the
  attempt counter has reached 1000; a candidate already in the set is dropped and the loop goes
  on with the counter increased, the set and the page unchanged and no error; a new candidate
  is appended to both. A run from the empty set ends with at most 1000 attempts and at most
  five pairwise different passwords, exactly those on the page. If it ends without a thrown
  error and with fewer than five, all 1000 attempts were used, and the handler keeps the
  passwords produced and shows the "could not generate enough unique passwords" message.
\<close>

theorem batch_loop_bounded_retry:
  "(\<not> (length gp < 5 \<and> attempts < 1000) \<longrightarrow>
      generate_loop opts sets all len rnd gp entries attempts pos
        = Some (None, gp, entries, attempts, pos))
   \<and> (length gp < 5 \<and> attempts < 1000
        \<and> assemble opts sets all len rnd pos = Some (Inr pw, pos1) \<and> pw \<in> set gp \<longrightarrow>
      generate_loop opts sets all len rnd gp entries attempts pos
        = generate_loop opts sets all len rnd gp entries (attempts + 1) pos1)
   \<and> (length gp < 5 \<and> attempts < 1000
        \<and> assemble opts sets all len rnd pos = Some (Inr pw, pos1) \<and> pw \<notin> set gp \<longrightarrow>
      generate_loop opts sets all len rnd gp entries attempts pos
        = generate_loop opts sets all len rnd (gp @ [pw])
            (entries @ [\<lparr>password = pw, entropy = calculateEntropy len (length all),
                          label = getPasswordStrength (calculateEntropy len (length all))\<rparr>])
            (attempts + 1) pos1)
   \<and> (\<forall>thrown gp' entries' attempts' pos'.
        generate_loop opts sets all len rnd [] [] 0 pos
          = Some (thrown, gp', entries', attempts', pos') \<longrightarrow>
        attempts' \<le> 1000 \<and> length gp' \<le> 5 \<and> distinct gp' \<and> map password entries' = gp'
        \<and> (thrown = None \<and> length gp' < 5 \<longrightarrow> attempts' = 1000))
   \<and> (\<forall>gp' entries' attempts' pos'.
        \<not> (noDuplicate opts \<and> len > length (concat (buildCharacterSets opts)))
        \<and> generate_loop opts (buildCharacterSets opts) (concat (buildCharacterSets opts)) len rnd
            [] [] 0 pos = Some (None, gp', entries', attempts', pos')
        \<and> length gp' < 5 \<longrightarrow>
        generate d opts len rnd pos
          = Some (d\<lparr>passwords := entries', error_message := Some NotEnoughUnique\<rparr>, pos'))"
proof -
  have res: "attempts' \<le> 1000 \<and> length gp' \<le> 5 \<and> distinct gp' \<and> map password entries' = gp'
        \<and> (thrown = None \<and> length gp' < 5 \<longrightarrow> attempts' = 1000)"
    if run: "generate_loop opts sets all len rnd [] [] 0 pos
          = Some (thrown, gp', entries', attempts', pos')"
    for thrown gp' entries' attempts' pos'
  proof -
    from generate_loop_result [OF run] have "attempts' \<le> 1000" "length gp' \<le> 5" "distinct gp'"
      "thrown = None \<longrightarrow> \<not> (length gp' < 5 \<and> attempts' < 1000)" by auto
    moreover from loop_passwords(1) [OF run] have "map password entries' = gp'" .
    ultimately show ?thesis by auto
  qed
  have py: "generate d opts len rnd pos
          = Some (d\<lparr>passwords := entries', error_message := Some NotEnoughUnique\<rparr>, pos')"
    if "\<not> (noDuplicate opts \<and> len > length (concat (buildCharacterSets opts)))"
      "generate_loop opts (buildCharacterSets opts) (concat (buildCharacterSets opts)) len rnd
            [] [] 0 pos = Some (None, gp', entries', attempts', pos')"
      "length gp' < 5"
    for gp' entries' attempts' pos'
    using that by (auto simp: generate_def Let_def displayError_def)
  have c1: "\<not> (length gp < 5 \<and> attempts < 1000) \<longrightarrow>
      generate_loop opts sets all len rnd gp entries attempts pos
        = Some (None, gp, entries, attempts, pos)"
    by (intro impI loop_stop)
  have c2: "length gp < 5 \<and> attempts < 1000
        \<and> assemble opts sets all len rnd pos = Some (Inr pw, pos1) \<and> pw \<in> set gp \<longrightarrow>
      generate_loop opts sets all len rnd gp entries attempts pos
        = generate_loop opts sets all len rnd gp entries (attempts + 1) pos1"
    by (intro impI, elim conjE, rule loop_duplicate)
  have c3: "length gp < 5 \<and> attempts < 1000
        \<and> assemble opts sets all len rnd pos = Some (Inr pw, pos1) \<and> pw \<notin> set gp \<longrightarrow>
      generate_loop opts sets all len rnd gp entries attempts pos
        = generate_loop opts sets all len rnd (gp @ [pw])
            (entries @ [\<lparr>password = pw, entropy = calculateEntropy len (length all),
                          label = getPasswordStrength (calculateEntropy len (length all))\<rparr>])
            (attempts + 1) pos1"
    by (intro impI, elim conjE, rule loop_accept)
  have c4: "\<forall>thrown gp' entries' attempts' pos'.
        generate_loop opts sets all len rnd [] [] 0 pos
          = Some (thrown, gp', entries', attempts', pos') \<longrightarrow>
        attempts' \<le> 1000 \<and> length gp' \<le> 5 \<and> distinct gp' \<and> map password entries' = gp'
        \<and> (thrown = None \<and> length gp' < 5 \<longrightarrow> attempts' = 1000)"
    by (intro allI impI res)
  have c5: "\<forall>gp' entries' attempts' pos'.
        \<not> (noDuplicate opts \<and> len > length (concat (buildCharacterSets opts)))
        \<and> generate_loop opts (buildCharacterSets opts) (concat (buildCharacterSets opts)) len rnd
            [] [] 0 pos = Some (None, gp', entries', attempts', pos')
        \<and> length gp' < 5 \<longrightarrow>
        generate d opts len rnd pos
          = Some (d\<lparr>passwords := entries', error_message := Some NotEnoughUnique\<rparr>, pos')"
    by (intro allI impI, elim conjE, rule py)
  show ?thesis by (intro conjI c1 c2 c3 c4 c5)
qed

text \<open>Lowercase letters, length 6, every draw 0: one password, then 999 collisions.\<close>

theorem batch_loop_bounded_retry_witness:
  "generate_loop opts_c6 (buildCharacterSets opts_c6) (concat (buildCharacterSets opts_c6)) 6
     rnd_zero [] [] 0 0 = Some (None, [''aaaaaa''], [entry_c6], 1000, 11000)
   \<and> generate d0 opts_c6 6 rnd_zero 0
       = Some (\<lparr>error_message = Some NotEnoughUnique, passwords = [entry_c6]\<rparr>, 11000)"
proof -
  have nd: "\<not> (noDuplicate opts_c6 \<and> 6 > length (concat (buildCharacterSets opts_c6)))"
    by (simp add: opts_c6_def)
  from batch_loop_bounded_retry [of "[]" 0 opts_c6 "buildCharacterSets opts_c6"
      "concat (buildCharacterSets opts_c6)" 6 rnd_zero "[]" 0 "''aaaaaa''" 0 d0]
    loop_run_zero nd
  show ?thesis by (simp add: d0_def)
qed

section \<open>Entropy and strength of an entry\<close>

lemma toFixed2_close: "\<bar>toFixed2 x - x\<bar> \<le> 1 / 200"
proof -
  define n where "n = real_of_int \<lfloor>x * 100 + 1 / 2\<rfloor>"
  have "n \<le> x * 100 + 1 / 2" "x * 100 + 1 / 2 < n + 1" unfolding n_def by linarith+
  moreover have "toFixed2 x = n / 100" by (simp add: toFixed2_def n_def)
  ultimately show ?thesis unfolding abs_le_iff by (intro conjI; linarith)
qed

lemma log2_26_bounds: "47 / 10 \<le> log 2 26" "log 2 26 < 785 / 167"
proof -
  have "(2::real) ^ 47 \<le> 26 ^ 10" by simp
  then have "real 47 \<le> log 2 (26 ^ 10)" by (rule le_log_of_power) simp
  moreover have "log 2 ((26::real) ^ 10) = real 10 * log 2 26" by (rule log_nat_power) simp
  ultimately show "47 / 10 \<le> log 2 26" by simp
  have "(26::nat) ^ 167 < 2 ^ 785" by simp
  then have "log 2 (real ((26::nat) ^ 167)) < real 785" by (rule log2_of_power_less) simp
  moreover have "real ((26::nat) ^ 167) = (26::real) ^ 167" by (simp only: of_nat_power of_nat_numeral)
  moreover have "log 2 ((26::real) ^ 167) = real 167 * log 2 26" by (rule log_nat_power) simp
  ultimately show "log 2 26 < 785 / 167" by (simp add: field_simps)
qed

lemma entropy_lowercase_8: "calculateEntropy 8 26 = 376 / 10"
proof -
  from log2_26_bounds have "3760 \<le> 8 * log 2 26 * 100 + 1 / 2"
    "8 * log 2 26 * 100 + 1 / 2 < 3761" by linarith+
  then have "\<lfloor>8 * log 2 26 * 100 + 1 / 2\<rfloor> = 3760" by linarith
  then show ?thesis by (simp add: calculateEntropy_def toFixed2_def)
qed

subsection \<open>The tier of the rounded figure is the tier of the exact entropy\<close>

text \<open>
  The strength is computed from the string that \<^verbatim>\<open>toFixed(2)\<close> returns. Rounding moves a
  value across a threshold \<open>T\<close> only from the interval \<open>[T - 0.005, T)\<close>, and for the alphabet
  sizes the character sets can have, no multiple of \<open>log2\<close> of the size lies in such an
  interval. The bounds on the logarithms are comparisons of integer powers.
\<close>

lemma log2_lower:
  fixes n p q :: nat
  assumes "2 ^ p \<le> n ^ q" "0 < q"
  shows "real p / real q \<le> log 2 (real n)"
proof -
  from assms(1) have "real (2 ^ p) \<le> real (n ^ q)" by (simp only: of_nat_le_iff)
  then have "(2::real) ^ p \<le> real n ^ q" by simp
  then have "real p \<le> log 2 (real n ^ q)" by (rule le_log_of_power) simp
  moreover have "log 2 (real n ^ q) = real q * log 2 (real n)" by (rule log_nat_power) simp
  ultimately have "real p \<le> real q * log 2 (real n)" by simp
  with assms(2) show ?thesis by (simp add: field_simps)
qed

lemma log2_upper:
  fixes n p q :: nat
  assumes "n ^ q \<le> 2 ^ p" "0 < q" "0 < n"
  shows "log 2 (real n) \<le> real p / real q"
proof -
  from assms(3) have "0 < n ^ q" by simp
  with assms(1) have "log 2 (real (n ^ q)) \<le> real p" by (intro log2_of_power_le)
  moreover have "log 2 (real n ^ q) = real q * log 2 (real n)" by (rule log_nat_power) simp
  ultimately have "real q * log 2 (real n) \<le> real p" by simp
  with assms(2) show ?thesis by (simp add: field_simps)
qed

lemma gap_free:
  fixes c lo hi T :: real and L k :: nat
  assumes "lo \<le> c" "c \<le> hi" "0 \<le> lo" "real k * hi < T - 1 / 200" "T \<le> real (Suc k) * lo"
  shows "\<not> (T - 1 / 200 \<le> real L * c \<and> real L * c < T)"
proof (cases "L \<le> k")
  case True
  from assms(1,3) have c: "0 \<le> c" by linarith
  from True have "real L * c \<le> real k * c" using c by (intro mult_right_mono) simp_all
  also have "\<dots> \<le> real k * hi" using assms(2) by (intro mult_left_mono) simp_all
  finally show ?thesis using assms(4) by linarith
next
  case False
  from assms(1,3) have c: "0 \<le> c" by linarith
  from False have "Suc k \<le> L" by simp
  then have "real (Suc k) \<le> real L" by (simp only: of_nat_le_iff)
  then have "real (Suc k) * c \<le> real L * c" using c by (intro mult_right_mono)
  moreover have "real (Suc k) * lo \<le> real (Suc k) * c" using assms(1) by (intro mult_left_mono) simp_all
  ultimately show ?thesis using assms(5) by linarith
qed

lemma toFixed2_less_iff: "toFixed2 x < real_of_int T \<longleftrightarrow> x < real_of_int T - 1 / 200"
proof -
  have "toFixed2 x < real_of_int T \<longleftrightarrow> real_of_int \<lfloor>x * 100 + 1 / 2\<rfloor> < real_of_int (T * 100)"
    by (simp add: toFixed2_def field_simps)
  also have "\<dots> \<longleftrightarrow> \<lfloor>x * 100 + 1 / 2\<rfloor> < T * 100" by (simp only: of_int_less_iff)
  also have "\<dots> \<longleftrightarrow> x * 100 + 1 / 2 < real_of_int (T * 100)" by (rule floor_less_iff)
  also have "\<dots> \<longleftrightarrow> x < real_of_int T - 1 / 200" by (simp add: field_simps)
  finally show ?thesis .
qed

lemma tier_of_rounded:
  assumes "\<forall>T\<in>thresholds. \<not> (T - 1 / 200 \<le> x \<and> x < T)"
  shows "getPasswordStrength (toFixed2 x) = getPasswordStrength x"
proof -
  have r: "toFixed2 x < T \<longleftrightarrow> x < T" if "T \<in> thresholds" "T = real_of_int Ti" for T Ti
  proof -
    from toFixed2_less_iff [of x Ti] that(2) have "toFixed2 x < T \<longleftrightarrow> x < T - 1 / 200" by simp
    moreover from assms that(1) have "\<not> (T - 1 / 200 \<le> x \<and> x < T)" by blast
    ultimately show ?thesis by linarith
  qed
  have t50: "toFixed2 x < 50 \<longleftrightarrow> x < 50"
    by (rule r [of 50 50]) (simp_all add: thresholds_def)
  have t70: "toFixed2 x < 70 \<longleftrightarrow> x < 70"
    by (rule r [of 70 70]) (simp_all add: thresholds_def)
  have t90: "toFixed2 x < 90 \<longleftrightarrow> x < 90"
    by (rule r [of 90 90]) (simp_all add: thresholds_def)
  have t110: "toFixed2 x < 110 \<longleftrightarrow> x < 110"
    by (rule r [of 110 110]) (simp_all add: thresholds_def)
  have t130: "toFixed2 x < 130 \<longleftrightarrow> x < 130"
    by (rule r [of 130 130]) (simp_all add: thresholds_def)
  have t150: "toFixed2 x < 150 \<longleftrightarrow> x < 150"
    by (rule r [of 150 150]) (simp_all add: thresholds_def)
  show ?thesis unfolding getPasswordStrength_def by (simp only: t50 t70 t90 t110 t130 t150)
qed

lemma no_gap_size:
  fixes c lo hi :: real and L a1 a2 a3 a4 a5 a6 :: nat
  assumes "lo \<le> c" "c \<le> hi" "0 \<le> lo"
    and "real a1 * hi < 50 - 1 / 200" "50 \<le> real (Suc a1) * lo"
    and "real a2 * hi < 70 - 1 / 200" "70 \<le> real (Suc a2) * lo"
    and "real a3 * hi < 90 - 1 / 200" "90 \<le> real (Suc a3) * lo"
    and "real a4 * hi < 110 - 1 / 200" "110 \<le> real (Suc a4) * lo"
    and "real a5 * hi < 130 - 1 / 200" "130 \<le> real (Suc a5) * lo"
    and "real a6 * hi < 150 - 1 / 200" "150 \<le> real (Suc a6) * lo"
  shows "\<forall>T\<in>thresholds. \<not> (T - 1 / 200 \<le> real L * c \<and> real L * c < T)"
  unfolding thresholds_def
  using gap_free [OF assms(1,2,3) assms(4,5), of L] gap_free [OF assms(1,2,3) assms(6,7), of L]
    gap_free [OF assms(1,2,3) assms(8,9), of L] gap_free [OF assms(1,2,3) assms(10,11), of L]
    gap_free [OF assms(1,2,3) assms(12,13), of L] gap_free [OF assms(1,2,3) assms(14,15), of L]
  by blast

lemma no_gap_8:
  "\<forall>T\<in>thresholds. \<not> (T - 1 / 200 \<le> real L * log 2 8 \<and> real L * log 2 8 < T)"
  by (rule no_gap_size [where lo = "3 / 1" and hi = "3 / 1"
        and ?a1.0 = 16 and ?a2.0 = 23 and ?a3.0 = 29 and ?a4.0 = 36 and ?a5.0 = 43 and ?a6.0 = 49])
    (use log2_lower [of 3 8 1] log2_upper [of 8 1 3] in simp_all)

lemma no_gap_10:
  "\<forall>T\<in>thresholds. \<not> (T - 1 / 200 \<le> real L * log 2 10 \<and> real L * log 2 10 < T)"
  by (rule no_gap_size [where lo = "23 / 7" and hi = "103 / 31"
        and ?a1.0 = 15 and ?a2.0 = 21 and ?a3.0 = 27 and ?a4.0 = 33 and ?a5.0 = 39 and ?a6.0 = 45])
    (use log2_lower [of 23 10 7] log2_upper [of 10 31 103] in simp_all)

lemma no_gap_23:
  "\<forall>T\<in>thresholds. \<not> (T - 1 / 200 \<le> real L * log 2 23 \<and> real L * log 2 23 < T)"
  by (rule no_gap_size [where lo = "9 / 2" and hi = "59 / 13"
        and ?a1.0 = 11 and ?a2.0 = 15 and ?a3.0 = 19 and ?a4.0 = 24 and ?a5.0 = 28 and ?a6.0 = 33])
    (use log2_lower [of 9 23 2] log2_upper [of 23 13 59] in simp_all)

lemma no_gap_24:
  "\<forall>T\<in>thresholds. \<not> (T - 1 / 200 \<le> real L * log 2 24 \<and> real L * log 2 24 < T)"
  by (rule no_gap_size [where lo = "55 / 12" and hi = "23 / 5"
        and ?a1.0 = 10 and ?a2.0 = 15 and ?a3.0 = 19 and ?a4.0 = 23 and ?a5.0 = 28 and ?a6.0 = 32])
    (use log2_lower [of 55 24 12] log2_upper [of 24 5 23] in simp_all)

lemma no_gap_26:
  "\<forall>T\<in>thresholds. \<not> (T - 1 / 200 \<le> real L * log 2 26 \<and> real L * log 2 26 < T)"
  by (rule no_gap_size [where lo = "47 / 10" and hi = "33 / 7"
        and ?a1.0 = 10 and ?a2.0 = 14 and ?a3.0 = 19 and ?a4.0 = 23 and ?a5.0 = 27 and ?a6.0 = 31])
    (use log2_lower [of 47 26 10] log2_upper [of 26 7 33] in simp_all)

lemma no_gap_29:
  "\<forall>T\<in>thresholds. \<not> (T - 1 / 200 \<le> real L * log 2 29 \<and> real L * log 2 29 < T)"
  by (rule no_gap_size [where lo = "34 / 7" and hi = "39 / 8"
        and ?a1.0 = 10 and ?a2.0 = 14 and ?a3.0 = 18 and ?a4.0 = 22 and ?a5.0 = 26 and ?a6.0 = 30])
    (use log2_lower [of 34 29 7] log2_upper [of 29 8 39] in simp_all)

lemma no_gap_31:
  "\<forall>T\<in>thresholds. \<not> (T - 1 / 200 \<le> real L * log 2 31 \<and> real L * log 2 31 < T)"
  by (rule no_gap_size [where lo = "34 / 7" and hi = "109 / 22"
        and ?a1.0 = 10 and ?a2.0 = 14 and ?a3.0 = 18 and ?a4.0 = 22 and ?a5.0 = 26 and ?a6.0 = 30])
    (use log2_lower [of 34 31 7] log2_upper [of 31 22 109] in simp_all)

lemma no_gap_32:
  "\<forall>T\<in>thresholds. \<not> (T - 1 / 200 \<le> real L * log 2 32 \<and> real L * log 2 32 < T)"
  by (rule no_gap_size [where lo = "5 / 1" and hi = "5 / 1"
        and ?a1.0 = 9 and ?a2.0 = 13 and ?a3.0 = 17 and ?a4.0 = 21 and ?a5.0 = 25 and ?a6.0 = 29])
    (use log2_lower [of 5 32 1] log2_upper [of 32 1 5] in simp_all)

lemma no_gap_36:
  "\<forall>T\<in>thresholds. \<not> (T - 1 / 200 \<le> real L * log 2 36 \<and> real L * log 2 36 < T)"
  by (rule no_gap_size [where lo = "5 / 1" and hi = "181 / 35"
        and ?a1.0 = 9 and ?a2.0 = 13 and ?a3.0 = 17 and ?a4.0 = 21 and ?a5.0 = 25 and ?a6.0 = 29])
    (use log2_lower [of 5 36 1] log2_upper [of 36 35 181] in simp_all)

lemma no_gap_37:
  "\<forall>T\<in>thresholds. \<not> (T - 1 / 200 \<le> real L * log 2 37 \<and> real L * log 2 37 < T)"
  by (rule no_gap_size [where lo = "26 / 5" and hi = "47 / 9"
        and ?a1.0 = 9 and ?a2.0 = 13 and ?a3.0 = 17 and ?a4.0 = 21 and ?a5.0 = 24 and ?a6.0 = 28])
    (use log2_lower [of 26 37 5] log2_upper [of 37 9 47] in simp_all)

lemma no_gap_39:
  "\<forall>T\<in>thresholds. \<not> (T - 1 / 200 \<le> real L * log 2 39 \<and> real L * log 2 39 < T)"
  by (rule no_gap_size [where lo = "21 / 4" and hi = "37 / 7"
        and ?a1.0 = 9 and ?a2.0 = 13 and ?a3.0 = 17 and ?a4.0 = 20 and ?a5.0 = 24 and ?a6.0 = 28])
    (use log2_lower [of 21 39 4] log2_upper [of 39 7 37] in simp_all)

lemma no_gap_47:
  "\<forall>T\<in>thresholds. \<not> (T - 1 / 200 \<le> real L * log 2 47 \<and> real L * log 2 47 < T)"
  by (rule no_gap_size [where lo = "11 / 2" and hi = "661 / 119"
        and ?a1.0 = 9 and ?a2.0 = 12 and ?a3.0 = 16 and ?a4.0 = 19 and ?a5.0 = 23 and ?a6.0 = 27])
    (use log2_lower [of 11 47 2] log2_upper [of 47 119 661] in simp_all)

lemma no_gap_52:
  "\<forall>T\<in>thresholds. \<not> (T - 1 / 200 \<le> real L * log 2 52 \<and> real L * log 2 52 < T)"
  by (rule no_gap_size [where lo = "17 / 3" and hi = "23 / 4"
        and ?a1.0 = 8 and ?a2.0 = 12 and ?a3.0 = 15 and ?a4.0 = 19 and ?a5.0 = 22 and ?a6.0 = 26])
    (use log2_lower [of 17 52 3] log2_upper [of 52 4 23] in simp_all)

lemma no_gap_53:
  "\<forall>T\<in>thresholds. \<not> (T - 1 / 200 \<le> real L * log 2 53 \<and> real L * log 2 53 < T)"
  by (rule no_gap_size [where lo = "17 / 3" and hi = "23 / 4"
        and ?a1.0 = 8 and ?a2.0 = 12 and ?a3.0 = 15 and ?a4.0 = 19 and ?a5.0 = 22 and ?a6.0 = 26])
    (use log2_lower [of 17 53 3] log2_upper [of 53 4 23] in simp_all)

lemma no_gap_55:
  "\<forall>T\<in>thresholds. \<not> (T - 1 / 200 \<le> real L * log 2 55 \<and> real L * log 2 55 < T)"
  by (rule no_gap_size [where lo = "52 / 9" and hi = "81 / 14"
        and ?a1.0 = 8 and ?a2.0 = 12 and ?a3.0 = 15 and ?a4.0 = 19 and ?a5.0 = 22 and ?a6.0 = 25])
    (use log2_lower [of 52 55 9] log2_upper [of 55 14 81] in simp_all)

lemma no_gap_60:
  "\<forall>T\<in>thresholds. \<not> (T - 1 / 200 \<le> real L * log 2 60 \<and> real L * log 2 60 < T)"
  by (rule no_gap_size [where lo = "35 / 6" and hi = "254 / 43"
        and ?a1.0 = 8 and ?a2.0 = 11 and ?a3.0 = 15 and ?a4.0 = 18 and ?a5.0 = 22 and ?a6.0 = 25])
    (use log2_lower [of 35 60 6] log2_upper [of 60 43 254] in simp_all)

lemma no_gap_61:
  "\<forall>T\<in>thresholds. \<not> (T - 1 / 200 \<le> real L * log 2 61 \<and> real L * log 2 61 < T)"
  by (rule no_gap_size [where lo = "65 / 11" and hi = "89 / 15"
        and ?a1.0 = 8 and ?a2.0 = 11 and ?a3.0 = 15 and ?a4.0 = 18 and ?a5.0 = 21 and ?a6.0 = 25])
    (use log2_lower [of 65 61 11] log2_upper [of 61 15 89] in simp_all)

lemma no_gap_62:
  "\<forall>T\<in>thresholds. \<not> (T - 1 / 200 \<le> real L * log 2 62 \<and> real L * log 2 62 < T)"
  by (rule no_gap_size [where lo = "65 / 11" and hi = "131 / 22"
        and ?a1.0 = 8 and ?a2.0 = 11 and ?a3.0 = 15 and ?a4.0 = 18 and ?a5.0 = 21 and ?a6.0 = 25])
    (use log2_lower [of 65 62 11] log2_upper [of 62 22 131] in simp_all)

lemma no_gap_65:
  "\<forall>T\<in>thresholds. \<not> (T - 1 / 200 \<le> real L * log 2 65 \<and> real L * log 2 65 < T)"
  by (rule no_gap_size [where lo = "6 / 1" and hi = "61 / 10"
        and ?a1.0 = 8 and ?a2.0 = 11 and ?a3.0 = 14 and ?a4.0 = 18 and ?a5.0 = 21 and ?a6.0 = 24])
    (use log2_lower [of 6 65 1] log2_upper [of 65 10 61] in simp_all)

lemma no_gap_76:
  "\<forall>T\<in>thresholds. \<not> (T - 1 / 200 \<le> real L * log 2 76 \<and> real L * log 2 76 < T)"
  by (rule no_gap_size [where lo = "31 / 5" and hi = "756 / 121"
        and ?a1.0 = 8 and ?a2.0 = 11 and ?a3.0 = 14 and ?a4.0 = 17 and ?a5.0 = 20 and ?a6.0 = 24])
    (use log2_lower [of 31 76 5] log2_upper [of 76 121 756] in simp_all)

lemma no_gap_81:
  "\<forall>T\<in>thresholds. \<not> (T - 1 / 200 \<le> real L * log 2 81 \<and> real L * log 2 81 < T)"
  by (rule no_gap_size [where lo = "19 / 3" and hi = "89 / 14"
        and ?a1.0 = 7 and ?a2.0 = 11 and ?a3.0 = 14 and ?a4.0 = 17 and ?a5.0 = 20 and ?a6.0 = 23])
    (use log2_lower [of 19 81 3] log2_upper [of 81 14 89] in simp_all)

lemma no_gap_84:
  "\<forall>T\<in>thresholds. \<not> (T - 1 / 200 \<le> real L * log 2 84 \<and> real L * log 2 84 < T)"
  by (rule no_gap_size [where lo = "51 / 8" and hi = "32 / 5"
        and ?a1.0 = 7 and ?a2.0 = 10 and ?a3.0 = 14 and ?a4.0 = 17 and ?a5.0 = 20 and ?a6.0 = 23])
    (use log2_lower [of 51 84 8] log2_upper [of 84 5 32] in simp_all)

lemma no_gap_91:
  "\<forall>T\<in>thresholds. \<not> (T - 1 / 200 \<le> real L * log 2 91 \<and> real L * log 2 91 < T)"
  by (rule no_gap_size [where lo = "13 / 2" and hi = "163 / 25"
        and ?a1.0 = 7 and ?a2.0 = 10 and ?a3.0 = 13 and ?a4.0 = 16 and ?a5.0 = 19 and ?a6.0 = 23])
    (use log2_lower [of 13 91 2] log2_upper [of 91 25 163] in simp_all)

lemma allChars_sizes:
  assumes "anySelected opts"
  shows "length (concat (buildCharacterSets opts)) \<in> {8, 10, 23, 24, 26, 29, 31, 32, 36, 37, 39, 47, 52, 53, 55, 60, 61, 62, 65, 76, 81, 84, 91}"
  using assms
  by (auto simp: buildCharacterSets_def Let_def filtered_base length_base anySelected_def)

lemma tier_of_entropy:
  assumes "anySelected opts"
  shows "getPasswordStrength (calculateEntropy L (length (concat (buildCharacterSets opts))))
         = getPasswordStrength (real L * log 2 (real (length (concat (buildCharacterSets opts)))))"
proof -
  have "\<forall>T\<in>thresholds. \<not> (T - 1 / 200 \<le> real L * log 2 (real n) \<and> real L * log 2 (real n) < T)"
    if "n \<in> {8, 10, 23, 24, 26, 29, 31, 32, 36, 37, 39, 47, 52, 53, 55, 60, 61, 62, 65, 76, 81, 84, 91}" for n :: nat
    using that no_gap_8 [of L] no_gap_10 [of L] no_gap_23 [of L] no_gap_24 [of L] no_gap_26 [of L] no_gap_29 [of L] no_gap_31 [of L] no_gap_32 [of L] no_gap_36 [of L] no_gap_37 [of L] no_gap_39 [of L] no_gap_47 [of L] no_gap_52 [of L] no_gap_53 [of L] no_gap_55 [of L] no_gap_60 [of L] no_gap_61 [of L] no_gap_62 [of L] no_gap_65 [of L] no_gap_76 [of L] no_gap_81 [of L] no_gap_84 [of L] no_gap_91 [of L]
    by (elim insertE emptyE; simp)
  from tier_of_rounded [OF this [OF allChars_sizes [OF assms]]]
  show ?thesis by (simp only: calculateEntropy_def)
qed

text \<open>
  C9: every entry the loop puts on the page carries the entropy \<open>len * log2 n\<close> rounded to
  two decimals, where \<open>n\<close> is the number of distinct characters of the full alphabet (the
  concatenation of all selected classes), so the figure is within 0.005 of \<open>len * log2 n\<close>; its
  label is the tier of that figure, which is also the tier of the exact value, under the
  thresholds 50, 70, 90, 110, 130, 150 (lower bound inclusive, upper bound exclusive). For
  lowercase letters only and length 8 the figure is 37.60 and the tier is Weak. The model
  computes \<^verbatim>\<open>Math.log2\<close> and the product over the reals.
\<close>

theorem entropy_and_strength_tier:
  assumes "anySelected opts"
  shows "(\<forall>thrown gp entries attempts pos'.
      generate_loop opts (buildCharacterSets opts) (concat (buildCharacterSets opts)) len rnd
        [] [] 0 pos = Some (thrown, gp, entries, attempts, pos') \<longrightarrow>
      (\<forall>e\<in>set entries.
         entropy e = toFixed2 (real len
                       * log 2 (real (card (set (concat (buildCharacterSets opts))))))
         \<and> \<bar>entropy e - real len
                * log 2 (real (card (set (concat (buildCharacterSets opts)))))\<bar> \<le> 1 / 200
         \<and> label e = getPasswordStrength (entropy e)
         \<and> label e = getPasswordStrength
               (real len * log 2 (real (card (set (concat (buildCharacterSets opts))))))))
   \<and> (\<forall>x. (x < 50 \<longrightarrow> getPasswordStrength x = Weak)
          \<and> (50 \<le> x \<and> x < 70 \<longrightarrow> getPasswordStrength x = Fair)
          \<and> (70 \<le> x \<and> x < 90 \<longrightarrow> getPasswordStrength x = Good)
          \<and> (90 \<le> x \<and> x < 110 \<longrightarrow> getPasswordStrength x = Strong)
          \<and> (110 \<le> x \<and> x < 130 \<longrightarrow> getPasswordStrength x = VeryStrong)
          \<and> (130 \<le> x \<and> x < 150 \<longrightarrow> getPasswordStrength x = ExtremelyStrong)
          \<and> (150 \<le> x \<longrightarrow> getPasswordStrength x = Unbreakable))
   \<and> concat (buildCharacterSets opts_c6) = lowercase
   \<and> calculateEntropy 8 (length lowercase) = 376 / 10
   \<and> \<bar>8 * log 2 26 - 376 / 10\<bar> \<le> 1 / 200
   \<and> getPasswordStrength (calculateEntropy 8 (length lowercase)) = Weak"
proof -
  let ?all = "concat (buildCharacterSets opts)"
  have card: "card (set ?all) = length ?all" by (rule distinct_card [OF distinct_allChars])
  have 1: "\<forall>e\<in>set entries.
         entropy e = toFixed2 (real len * log 2 (real (card (set ?all))))
         \<and> \<bar>entropy e - real len * log 2 (real (card (set ?all)))\<bar> \<le> 1 / 200
         \<and> label e = getPasswordStrength (entropy e)
         \<and> label e = getPasswordStrength (real len * log 2 (real (card (set ?all))))"
    if run: "generate_loop opts (buildCharacterSets opts) ?all len rnd [] [] 0 pos
               = Some (thrown, gp, entries, attempts, pos')"
    for thrown gp entries attempts pos'
  proof
    fix e assume e: "e \<in> set entries"
    from generate_loop_result [OF run] obtain new where
      "entries = [] @ map (\<lambda>pw. \<lparr>password = pw,
                 entropy = calculateEntropy len (length ?all),
                 label = getPasswordStrength (calculateEntropy len (length ?all))\<rparr>) new"
      by blast
    with e have ent: "entropy e = calculateEntropy len (length ?all)"
      and lab: "label e = getPasswordStrength (calculateEntropy len (length ?all))" by auto
    from ent have a: "entropy e = toFixed2 (real len * log 2 (real (card (set ?all))))"
      by (simp only: card calculateEntropy_def)
    from toFixed2_close [of "real len * log 2 (real (card (set ?all)))"] a
    have b: "\<bar>entropy e - real len * log 2 (real (card (set ?all)))\<bar> \<le> 1 / 200" by simp
    from lab ent have c: "label e = getPasswordStrength (entropy e)" by simp
    from lab tier_of_entropy [OF assms, of len]
    have d: "label e = getPasswordStrength (real len * log 2 (real (card (set ?all))))"
      by (simp only: card)
    from a b c d show "entropy e = toFixed2 (real len * log 2 (real (card (set ?all))))
         \<and> \<bar>entropy e - real len * log 2 (real (card (set ?all)))\<bar> \<le> 1 / 200
         \<and> label e = getPasswordStrength (entropy e)
         \<and> label e = getPasswordStrength (real len * log 2 (real (card (set ?all))))"
      by (intro conjI)
  qed
  have 2: "\<forall>x. (x < 50 \<longrightarrow> getPasswordStrength x = Weak)
          \<and> (50 \<le> x \<and> x < 70 \<longrightarrow> getPasswordStrength x = Fair)
          \<and> (70 \<le> x \<and> x < 90 \<longrightarrow> getPasswordStrength x = Good)
          \<and> (90 \<le> x \<and> x < 110 \<longrightarrow> getPasswordStrength x = Strong)
          \<and> (110 \<le> x \<and> x < 130 \<longrightarrow> getPasswordStrength x = VeryStrong)
          \<and> (130 \<le> x \<and> x < 150 \<longrightarrow> getPasswordStrength x = ExtremelyStrong)
          \<and> (150 \<le> x \<longrightarrow> getPasswordStrength x = Unbreakable)"
    by (simp add: getPasswordStrength_def)
  have 3: "concat (buildCharacterSets opts_c6) = lowercase"
    by (simp add: buildCharacterSets_def opts_c6_def)
  have l26: "length lowercase = 26" by (rule length_base)
  have 4: "calculateEntropy 8 (length lowercase) = 376 / 10"
    by (simp only: l26 entropy_lowercase_8)
  have "toFixed2 (8 * log 2 26) = 376 / 10"
    using entropy_lowercase_8 by (simp add: calculateEntropy_def)
  with toFixed2_close [of "8 * log 2 26"] have "\<bar>376 / 10 - 8 * log 2 26\<bar> \<le> 1 / 200"
    by (simp only:)
  then have 5: "\<bar>8 * log 2 26 - 376 / 10\<bar> \<le> 1 / 200"
    by (simp only: abs_minus_commute)
  have 6: "getPasswordStrength (calculateEntropy 8 (length lowercase)) = Weak"
    by (simp add: 4 getPasswordStrength_def)
  from 1 have all_entries: "\<forall>thrown gp entries attempts pos'.
      generate_loop opts (buildCharacterSets opts) ?all len rnd [] [] 0 pos
        = Some (thrown, gp, entries, attempts, pos') \<longrightarrow>
      (\<forall>e\<in>set entries.
         entropy e = toFixed2 (real len * log 2 (real (card (set ?all))))
         \<and> \<bar>entropy e - real len * log 2 (real (card (set ?all)))\<bar> \<le> 1 / 200
         \<and> label e = getPasswordStrength (entropy e)
         \<and> label e = getPasswordStrength (real len * log 2 (real (card (set ?all)))))"
    by blast
  show ?thesis by (intro conjI all_entries 2 3 4 5 6)
qed

text \<open>The run with every draw 0: the one entry on the page.\<close>

theorem entropy_and_strength_tier_witness:
  "anySelected opts_c6
   \<and> generate_loop opts_c6 (buildCharacterSets opts_c6) (concat (buildCharacterSets opts_c6)) 6
       rnd_zero [] [] 0 0 = Some (None, [''aaaaaa''], [entry_c6], 1000, 11000)
   \<and> entropy entry_c6
       = toFixed2 (real 6 * log 2 (real (card (set (concat (buildCharacterSets opts_c6))))))
   \<and> label entry_c6
       = getPasswordStrength
           (real 6 * log 2 (real (card (set (concat (buildCharacterSets opts_c6))))))"
proof -
  have sel: "anySelected opts_c6" by (simp add: anySelected_def opts_c6_def)
  let ?x = "real 6 * log 2 (real (card (set (concat (buildCharacterSets opts_c6)))))"
  note t = entropy_and_strength_tier [OF sel, of 6 rnd_zero 0, THEN conjunct1]
  from t loop_run_zero have "\<forall>e\<in>set [entry_c6].
      entropy e = toFixed2 ?x \<and> \<bar>entropy e - ?x\<bar> \<le> 1 / 200
      \<and> label e = getPasswordStrength (entropy e) \<and> label e = getPasswordStrength ?x"
    by blast
  moreover have "entry_c6 \<in> set [entry_c6]" by simp
  ultimately have "entropy entry_c6 = toFixed2 ?x" "label entry_c6 = getPasswordStrength ?x"
    by blast+
  with sel loop_run_zero show ?thesis by (intro conjI)
qed


end
